theory Spec2Isabelle
  imports Main "HOL-Library.Word"
begin

unbundle bit_operations_syntax

section \<open>Bytes, cursors and errors\<close>

text \<open>
  The module \<^verbatim>\<open>kafka/protocol/types.py\<close> turns values into byte strings and reads
  them back from an \<^verbatim>\<open>io.BytesIO\<close> cursor. A byte string is a list of 8-bit words.
  A cursor is the list of the bytes not read yet: every decoder takes it and returns it
  advanced, next to the decoded value. Python integers are unbounded: they are \<open>int\<close>.
\<close>

type_synonym byte = "8 word"
type_synonym bytes = "byte list"

text \<open>
  The exceptions the module raises or lets through:
  \<^item> \<open>ValueError\<close> with the message of the \<^verbatim>\<open>raise ValueError(...)\<close> that built it
    (the long message of \<^verbatim>\<open>_pack\<close> and \<^verbatim>\<open>_unpack\<close> is cut to its first words);
  \<^item> \<open>StructError\<close>: a \<^verbatim>\<open>struct.error\<close> that no \<^verbatim>\<open>_pack\<close> wraps
    (the bare \<^verbatim>\<open>struct.pack(">B", ...)\<close> of \<^verbatim>\<open>write_unsigned_varint\<close>);
  \<^item> \<open>Exception v\<close>: the \<^verbatim>\<open>raise Exception(value)\<close> of \<^verbatim>\<open>read_unsigned_varint\<close>;
  \<^item> \<open>TypeError\<close>, \<open>AssertionError\<close>, \<open>IndexError\<close>, \<open>UnicodeError\<close>: raised by the
    interpreter.
\<close>

datatype error =
    ValueError string
  | StructError
  | Exception int
  | TypeError
  | AssertionError
  | IndexError
  | UnicodeError

text \<open>
  \<^verbatim>\<open>BytesIO.read(n)\<close>: the next \<open>n\<close> bytes, or as many as are left; a negative
  \<open>n\<close> reads everything that is left.
\<close>

definition read :: "int \<Rightarrow> bytes \<Rightarrow> bytes \<times> bytes" where
  "read n buf = (if n < 0 then (buf, []) else (take (nat n) buf, drop (nat n) buf))"

text \<open>\<^verbatim>\<open>len(b)\<close> of a byte string or a sequence, as a Python integer.\<close>

definition len :: "'a list \<Rightarrow> int" where
  "len xs = int (length xs)"

section \<open>VarInt\<close>

text \<open>
  \<^verbatim>\<open>struct.pack(">B", value)\<close>: one unsigned byte, \<^verbatim>\<open>struct.error\<close> outside
  \<open>0..255\<close>.
\<close>

definition pack_B :: "int \<Rightarrow> error + bytes" where
  "pack_B v = (if 0 \<le> v \<and> v \<le> 255 then Inr [word_of_int v] else Inl StructError)"

text \<open>
  The two statements \<^verbatim>\<open>b = buffer.read(1); b = b[0] if len(b) > 0 else 0\<close>, which
  stand before the loop of \<^verbatim>\<open>read_unsigned_varint\<close> and at the end of its body.
\<close>

definition read_byte :: "bytes \<Rightarrow> int \<times> bytes" where
  "read_byte buf =
     (let (b, buf') = read 1 buf
      in ((if len b > 0 then uint (b ! 0) else 0), buf'))"

text \<open>
  The \<^verbatim>\<open>while (b & 0x80) != 0\<close> loop of \<^verbatim>\<open>read_unsigned_varint\<close> on its
  variables \<open>b\<close>, \<open>value\<close>, \<open>i\<close> and the cursor, together with the two statements
  after it. The shift \<open>i\<close> grows by 7 in every iteration and the loop raises once it
  exceeds 28.
\<close>

function read_loop :: "int \<Rightarrow> int \<Rightarrow> nat \<Rightarrow> bytes \<Rightarrow> error + (int \<times> bytes)" where
  "read_loop b v i buf =
     (if b AND 0x80 \<noteq> 0 then
        (if i + 7 > 28 then Inl (Exception (v OR push_bit i (b AND 0x7f)))
         else read_loop (fst (read_byte buf)) (v OR push_bit i (b AND 0x7f)) (i + 7)
                (snd (read_byte buf)))
      else Inr (v OR push_bit i b, buf))"
  by pat_completeness auto
termination
  by (relation "measure (\<lambda>(b, v, i, buf). 36 - i)") auto

definition read_unsigned_varint :: "bytes \<Rightarrow> error + (int \<times> bytes)" where
  "read_unsigned_varint buf = read_loop (fst (read_byte buf)) 0 0 (snd (read_byte buf))"

text \<open>
  The \<^verbatim>\<open>while (value & 0xffffff80) != 0\<close> loop of \<^verbatim>\<open>write_unsigned_varint\<close>
  on \<open>value\<close> and the bytes written so far, with the final
  \<^verbatim>\<open>buffer.write(struct.pack(">B", value))\<close>. Nothing bounds the number of
  iterations, so the loop is a partial function: \<open>None\<close> is a run that never returns,
  \<open>Some (Inl e)\<close> a raised exception, \<open>Some (Inr bs)\<close> the bytes of the buffer.
\<close>

partial_function (option) write_loop :: "int \<Rightarrow> bytes \<Rightarrow> (error + bytes) option" where
  "write_loop v buf =
     (if v AND 0xffffff80 \<noteq> 0 then
        (case pack_B ((v AND 0x7f) OR 0x80) of
           Inl e \<Rightarrow> Some (Inl e)
         | Inr bs \<Rightarrow> write_loop (drop_bit 7 v) (buf @ bs))
      else
        (case pack_B v of
           Inl e \<Rightarrow> Some (Inl e)
         | Inr bs \<Rightarrow> Some (Inr (buf @ bs))))"

text \<open>
  \<^verbatim>\<open>write_unsigned_varint\<close> returns the buffer rewound to its start; every caller
  in the module reads all of it at once, so the model returns the bytes.
\<close>

definition write_unsigned_varint :: "int \<Rightarrow> (error + bytes) option" where
  "write_unsigned_varint v = write_loop v []"

text \<open>
  \<^verbatim>\<open>len_decoder\<close> and \<^verbatim>\<open>len_encoder\<close>: the length prefix of the compact types,
  the unsigned varint of the length plus one.
\<close>

definition VarInt_len_decoder :: "bytes \<Rightarrow> error + (int \<times> bytes)" where
  "VarInt_len_decoder buf =
     (case read_unsigned_varint buf of
        Inl e \<Rightarrow> Inl e
      | Inr (v, buf') \<Rightarrow> Inr (v - 1, buf'))"

definition VarInt_len_encoder :: "int \<Rightarrow> (error + bytes) option" where
  "VarInt_len_encoder v = write_unsigned_varint (v + 1)"

text \<open>
  \<^verbatim>\<open>read_varint\<close> and \<^verbatim>\<open>write_varint\<close>: Python's \<^verbatim>\<open>>>\<close> on an unbounded
  integer is the arithmetic shift \<open>drop_bit\<close>, \<^verbatim>\<open><<\<close> is \<open>push_bit\<close>.
\<close>

definition read_varint :: "bytes \<Rightarrow> error + (int \<times> bytes)" where
  "read_varint buf =
     (case read_unsigned_varint buf of
        Inl e \<Rightarrow> Inl e
      | Inr (v, buf') \<Rightarrow> Inr (drop_bit 1 v XOR - (v AND 1), buf'))"

definition write_varint :: "int \<Rightarrow> (error + bytes) option" where
  "write_varint v = write_unsigned_varint (push_bit 1 v XOR drop_bit 31 v)"

section \<open>Values\<close>

text \<open>
  The values the codecs take and return. A Python \<^verbatim>\<open>str\<close> is a sequence of Unicode
  code points, here natural numbers.
\<close>

type_synonym ustring = "nat list"

datatype pyval =
    PNone
  | PInt int
  | PBool bool
  | PStr ustring
  | PBytes bytes
  | PTuple "pyval list"
  | PList "pyval list"

text \<open>
  What \<^verbatim>\<open>len(v)\<close>, \<^verbatim>\<open>v[i]\<close> and \<^verbatim>\<open>for x in v\<close> see of a value: the elements of a
  tuple or a list, the one-character strings of a string, the integers of a byte string.
  The other values have no length: \<^verbatim>\<open>TypeError\<close>.
\<close>

fun py_seq :: "pyval \<Rightarrow> error + pyval list" where
  "py_seq (PTuple xs) = Inr xs"
| "py_seq (PList xs) = Inr xs"
| "py_seq (PStr s) = Inr (map (\<lambda>c. PStr [c]) s)"
| "py_seq (PBytes bs) = Inr (map (\<lambda>b. PInt (uint b)) bs)"
| "py_seq PNone = Inl TypeError"
| "py_seq (PInt n) = Inl TypeError"
| "py_seq (PBool b) = Inl TypeError"

text \<open>
  \<^verbatim>\<open>str(value)\<close> of a string is the string. The module calls it on whatever
  \<^verbatim>\<open>String.encode\<close> is given; its result on the other values is left unspecified.
\<close>

fun py_str :: "pyval \<Rightarrow> ustring" where
  "py_str (PStr s) = s"
| "py_str v = undefined"

text \<open>
  Sequencing of computations that may raise or never return: the first one that does
  not produce a value decides.
\<close>

definition bind :: "(error + 'a) option \<Rightarrow> ('a \<Rightarrow> (error + 'b) option) \<Rightarrow> (error + 'b) option" where
  "bind m f = (case m of None \<Rightarrow> None | Some (Inl e) \<Rightarrow> Some (Inl e) | Some (Inr x) \<Rightarrow> f x)"

section \<open>Fixed-width integers\<close>

text \<open>
  \<^verbatim>\<open>struct.Struct('>b')\<close>, \<^verbatim>\<open>'>h'\<close>, \<^verbatim>\<open>'>i'\<close> and \<^verbatim>\<open>'>q'\<close>: big-endian two's
  complement on 1, 2, 4 and 8 bytes. \<open>be_bytes w n\<close> is the \<open>w\<close> low bytes of \<open>n\<close>,
  most significant first; \<open>be_unsigned\<close> reads bytes back as an unsigned number.
\<close>

fun be_bytes :: "nat \<Rightarrow> int \<Rightarrow> bytes" where
  "be_bytes 0 n = []"
| "be_bytes (Suc k) n = word_of_int (drop_bit (8 * k) n) # be_bytes k n"

definition be_unsigned :: "bytes \<Rightarrow> int" where
  "be_unsigned d = foldl (\<lambda>a b. a * 256 + uint b) 0 d"

text \<open>
  \<^verbatim>\<open>struct\<close> packs an \<^verbatim>\<open>int\<close> (a \<^verbatim>\<open>bool\<close> is one) and refuses every other value
  of \<open>pyval\<close>.
\<close>

fun as_int :: "pyval \<Rightarrow> int option" where
  "as_int (PInt n) = Some n"
| "as_int (PBool b) = Some (if b then 1 else 0)"
| "as_int v = None"

text \<open>
  \<^verbatim>\<open>_pack(f, value)\<close> and \<^verbatim>\<open>_unpack(f, data)\<close> for the integer formats of width
  \<open>w\<close>: the \<^verbatim>\<open>struct.error\<close> of a value out of range, of a value that is not an integer
  or of a buffer of the wrong size comes out as a \<^verbatim>\<open>ValueError\<close>.
\<close>

definition pack_int :: "nat \<Rightarrow> pyval \<Rightarrow> error + bytes" where
  "pack_int w v =
     (case as_int v of
        None \<Rightarrow> Inl (ValueError ''Error encountered when attempting to convert value'')
      | Some n \<Rightarrow>
          if - (2 ^ (8 * w - 1)) \<le> n \<and> n < 2 ^ (8 * w - 1) then Inr (be_bytes w n)
          else Inl (ValueError ''Error encountered when attempting to convert value''))"

definition unpack_int :: "nat \<Rightarrow> bytes \<Rightarrow> error + int" where
  "unpack_int w d =
     (if length d \<noteq> w then
        Inl (ValueError ''Error encountered when attempting to convert value'')
      else Inr (if be_unsigned d \<ge> 2 ^ (8 * w - 1) then be_unsigned d - 2 ^ (8 * w)
                else be_unsigned d))"

text \<open>\<^verbatim>\<open>decode(cls, data)\<close> of the integer classes: \<^verbatim>\<open>_unpack(cls._unpack, data.read(w))\<close>.\<close>

definition decode_int :: "nat \<Rightarrow> bytes \<Rightarrow> error + (int \<times> bytes)" where
  "decode_int w buf =
     (let (d, buf') = read (int w) buf
      in case unpack_int w d of Inl e \<Rightarrow> Inl e | Inr n \<Rightarrow> Inr (n, buf'))"

definition Int8_encode :: "pyval \<Rightarrow> error + bytes" where
  "Int8_encode v = pack_int 1 v"

definition Int8_decode :: "bytes \<Rightarrow> error + (int \<times> bytes)" where
  "Int8_decode buf = decode_int 1 buf"

definition Int16_encode :: "pyval \<Rightarrow> error + bytes" where
  "Int16_encode v = pack_int 2 v"

definition Int16_decode :: "bytes \<Rightarrow> error + (int \<times> bytes)" where
  "Int16_decode buf = decode_int 2 buf"

definition Int32_encode :: "pyval \<Rightarrow> error + bytes" where
  "Int32_encode v = pack_int 4 v"

definition Int32_decode :: "bytes \<Rightarrow> error + (int \<times> bytes)" where
  "Int32_decode buf = decode_int 4 buf"

definition Int64_encode :: "pyval \<Rightarrow> error + bytes" where
  "Int64_encode v = pack_int 8 v"

definition Int64_decode :: "bytes \<Rightarrow> error + (int \<times> bytes)" where
  "Int64_decode buf = decode_int 8 buf"

section \<open>Text encodings\<close>

text \<open>
  \<^verbatim>\<open>String(encoding='utf-8')\<close> keeps the name of a text encoding and hands it to
  \<^verbatim>\<open>str.encode\<close> and \<^verbatim>\<open>bytes.decode\<close>. The model keeps the two functions the name
  stands for; both raise (a \<^verbatim>\<open>UnicodeError\<close>) on input the encoding does not cover.
\<close>

record encoding =
  str_encode :: "ustring \<Rightarrow> error + bytes"
  bytes_decode :: "bytes \<Rightarrow> error + ustring"

text \<open>
  The default, UTF-8: one to four bytes for a code point, no surrogates
  (\<open>0xD800..0xDFFF\<close>), nothing above \<open>0x10FFFF\<close>; the decoder accepts the shortest
  form only.
\<close>

definition utf8_encode_cp :: "nat \<Rightarrow> error + bytes" where
  "utf8_encode_cp c =
     (if c < 0x80 then Inr [of_nat c]
      else if c < 0x800 then Inr [of_nat (0xC0 + c div 64), of_nat (0x80 + c mod 64)]
      else if c < 0x10000 then
        (if 0xD800 \<le> c \<and> c \<le> 0xDFFF then Inl UnicodeError
         else Inr [of_nat (0xE0 + c div 4096), of_nat (0x80 + c div 64 mod 64),
                   of_nat (0x80 + c mod 64)])
      else if c < 0x110000 then
        Inr [of_nat (0xF0 + c div 262144), of_nat (0x80 + c div 4096 mod 64),
             of_nat (0x80 + c div 64 mod 64), of_nat (0x80 + c mod 64)]
      else Inl UnicodeError)"

fun utf8_encode :: "ustring \<Rightarrow> error + bytes" where
  "utf8_encode [] = Inr []"
| "utf8_encode (c # cs) =
     (case utf8_encode_cp c of
        Inl e \<Rightarrow> Inl e
      | Inr bs \<Rightarrow> (case utf8_encode cs of Inl e \<Rightarrow> Inl e | Inr bs' \<Rightarrow> Inr (bs @ bs')))"

definition is_cont :: "byte \<Rightarrow> bool" where
  "is_cont b = (0x80 \<le> unat b \<and> unat b < 0xC0)"

definition cont_bits :: "byte \<Rightarrow> nat" where
  "cont_bits b = unat b - 0x80"

definition cons_cp :: "nat \<Rightarrow> error + ustring \<Rightarrow> error + ustring" where
  "cons_cp c r = (case r of Inl e \<Rightarrow> Inl e | Inr cs \<Rightarrow> Inr (c # cs))"

fun utf8_decode :: "bytes \<Rightarrow> error + ustring" where
  "utf8_decode [] = Inr []"
| "utf8_decode (b0 # bs) =
     (if unat b0 < 0x80 then cons_cp (unat b0) (utf8_decode bs)
      else if 0xC2 \<le> unat b0 \<and> unat b0 < 0xE0 then
        (case bs of
           b1 # r \<Rightarrow>
             if is_cont b1 then
               cons_cp ((unat b0 - 0xC0) * 64 + cont_bits b1) (utf8_decode r)
             else Inl UnicodeError
         | _ \<Rightarrow> Inl UnicodeError)
      else if 0xE0 \<le> unat b0 \<and> unat b0 < 0xF0 then
        (case bs of
           b1 # b2 # r \<Rightarrow>
             (let c = (unat b0 - 0xE0) * 4096 + cont_bits b1 * 64 + cont_bits b2
              in if is_cont b1 \<and> is_cont b2 \<and> 0x800 \<le> c \<and> \<not> (0xD800 \<le> c \<and> c \<le> 0xDFFF)
                 then cons_cp c (utf8_decode r)
                 else Inl UnicodeError)
         | _ \<Rightarrow> Inl UnicodeError)
      else if 0xF0 \<le> unat b0 \<and> unat b0 < 0xF5 then
        (case bs of
           b1 # b2 # b3 # r \<Rightarrow>
             (let c = (unat b0 - 0xF0) * 262144 + cont_bits b1 * 4096 + cont_bits b2 * 64
                        + cont_bits b3
              in if is_cont b1 \<and> is_cont b2 \<and> is_cont b3 \<and> 0x10000 \<le> c \<and> c < 0x110000
                 then cons_cp c (utf8_decode r)
                 else Inl UnicodeError)
         | _ \<Rightarrow> Inl UnicodeError)
      else Inl UnicodeError)"

definition utf8 :: encoding where
  "utf8 = \<lparr>str_encode = utf8_encode, bytes_decode = utf8_decode\<rparr>"

section \<open>String and Bytes\<close>

text \<open>
  The class attributes \<^verbatim>\<open>len_encoder\<close> and \<^verbatim>\<open>len_decoder\<close> are the parameters
  \<open>lenc\<close> and \<open>ldec\<close> of the methods: \<^verbatim>\<open>Int16\<close> for \<^verbatim>\<open>String\<close>, \<^verbatim>\<open>Int32\<close> for
  \<^verbatim>\<open>Bytes\<close> and \<^verbatim>\<open>Array\<close>, \<^verbatim>\<open>VarInt\<close> for the compact subclasses.
\<close>

type_synonym len_encoder = "int \<Rightarrow> (error + bytes) option"
type_synonym len_decoder = "bytes \<Rightarrow> error + (int \<times> bytes)"

definition String_len_encoder :: len_encoder where
  "String_len_encoder n = Some (Int16_encode (PInt n))"

definition String_len_decoder :: len_decoder where
  "String_len_decoder = Int16_decode"

definition Bytes_len_encoder :: len_encoder where
  "Bytes_len_encoder n = Some (Int32_encode (PInt n))"

definition Bytes_len_decoder :: len_decoder where
  "Bytes_len_decoder = Int32_decode"

definition Array_len_encoder :: len_encoder where
  "Array_len_encoder n = Some (Int32_encode (PInt n))"

definition Array_len_decoder :: len_decoder where
  "Array_len_decoder = Int32_decode"

definition String_encode :: "len_encoder \<Rightarrow> encoding \<Rightarrow> pyval \<Rightarrow> (error + bytes) option" where
  "String_encode lenc enc v =
     (case v of
        PNone \<Rightarrow> lenc (- 1)
      | _ \<Rightarrow>
          (case str_encode enc (py_str v) of
             Inl e \<Rightarrow> Some (Inl e)
           | Inr bs \<Rightarrow> bind (lenc (len bs)) (\<lambda>l. Some (Inr (l @ bs)))))"

definition String_decode :: "len_decoder \<Rightarrow> encoding \<Rightarrow> bytes \<Rightarrow> error + (ustring option \<times> bytes)" where
  "String_decode ldec enc buf =
     (case ldec buf of
        Inl e \<Rightarrow> Inl e
      | Inr (n, buf') \<Rightarrow>
          if n < 0 then Inr (None, buf')
          else
            (let (v, buf'') = read n buf'
             in if len v \<noteq> n then Inl (ValueError ''Buffer underrun decoding string'')
                else
                  (case bytes_decode enc v of
                     Inl e \<Rightarrow> Inl e
                   | Inr s \<Rightarrow> Inr (Some s, buf''))))"

text \<open>
  \<^verbatim>\<open>Bytes.encode\<close> computes \<^verbatim>\<open>cls.len_encoder(len(value)) + value\<close>: a value with a
  length that is not a byte string gets its length encoded and then fails in \<^verbatim>\<open>+\<close>.
\<close>

definition Bytes_encode :: "len_encoder \<Rightarrow> pyval \<Rightarrow> (error + bytes) option" where
  "Bytes_encode lenc v =
     (case v of
        PNone \<Rightarrow> lenc (- 1)
      | PBytes bs \<Rightarrow> bind (lenc (len bs)) (\<lambda>l. Some (Inr (l @ bs)))
      | _ \<Rightarrow>
          (case py_seq v of
             Inl e \<Rightarrow> Some (Inl e)
           | Inr xs \<Rightarrow> bind (lenc (len xs)) (\<lambda>l. Some (Inl TypeError))))"

definition Bytes_decode :: "len_decoder \<Rightarrow> bytes \<Rightarrow> error + (bytes option \<times> bytes)" where
  "Bytes_decode ldec buf =
     (case ldec buf of
        Inl e \<Rightarrow> Inl e
      | Inr (n, buf') \<Rightarrow>
          if n < 0 then Inr (None, buf')
          else
            (let (v, buf'') = read n buf'
             in if len v \<noteq> n then Inl (ValueError ''Buffer underrun decoding Bytes'')
                else Inr (Some v, buf'')))"

section \<open>Codecs as values\<close>

text \<open>
  \<^verbatim>\<open>Schema\<close> and \<^verbatim>\<open>Array\<close> hold other codecs and call their \<^verbatim>\<open>encode\<close> and
  \<^verbatim>\<open>decode\<close>: a codec is the pair of the two methods. An encoder may raise or, through
  \<^verbatim>\<open>write_unsigned_varint\<close>, never return; a decoder returns a value and the advanced
  cursor, or raises.
\<close>

record codec =
  encode :: "pyval \<Rightarrow> (error + bytes) option"
  decode :: "bytes \<Rightarrow> error + (pyval \<times> bytes)"

text \<open>The Python value a decoder's result stands for.\<close>

definition returning :: "('a \<Rightarrow> pyval) \<Rightarrow> error + ('a \<times> bytes) \<Rightarrow> error + (pyval \<times> bytes)" where
  "returning f r = (case r of Inl e \<Rightarrow> Inl e | Inr (x, buf) \<Rightarrow> Inr (f x, buf))"

definition or_None :: "('a \<Rightarrow> pyval) \<Rightarrow> 'a option \<Rightarrow> pyval" where
  "or_None f x = (case x of None \<Rightarrow> PNone | Some y \<Rightarrow> f y)"

definition Int8 :: codec where
  "Int8 = \<lparr>encode = (\<lambda>v. Some (Int8_encode v)), decode = (\<lambda>buf. returning PInt (Int8_decode buf))\<rparr>"

definition Int16 :: codec where
  "Int16 = \<lparr>encode = (\<lambda>v. Some (Int16_encode v)), decode = (\<lambda>buf. returning PInt (Int16_decode buf))\<rparr>"

definition Int32 :: codec where
  "Int32 = \<lparr>encode = (\<lambda>v. Some (Int32_encode v)), decode = (\<lambda>buf. returning PInt (Int32_decode buf))\<rparr>"

definition Int64 :: codec where
  "Int64 = \<lparr>encode = (\<lambda>v. Some (Int64_encode v)), decode = (\<lambda>buf. returning PInt (Int64_decode buf))\<rparr>"

definition String :: "encoding \<Rightarrow> codec" where
  "String enc =
     \<lparr>encode = String_encode String_len_encoder enc,
      decode = (\<lambda>buf. returning (or_None PStr) (String_decode String_len_decoder enc buf))\<rparr>"

definition CompactString :: "encoding \<Rightarrow> codec" where
  "CompactString enc =
     \<lparr>encode = String_encode VarInt_len_encoder enc,
      decode = (\<lambda>buf. returning (or_None PStr) (String_decode VarInt_len_decoder enc buf))\<rparr>"

definition Bytes :: codec where
  "Bytes =
     \<lparr>encode = Bytes_encode Bytes_len_encoder,
      decode = (\<lambda>buf. returning (or_None PBytes) (Bytes_decode Bytes_len_decoder buf))\<rparr>"

definition CompactBytes :: codec where
  "CompactBytes =
     \<lparr>encode = Bytes_encode VarInt_len_encoder,
      decode = (\<lambda>buf. returning (or_None PBytes) (Bytes_decode VarInt_len_decoder buf))\<rparr>"

section \<open>Schema\<close>

text \<open>
  \<^verbatim>\<open>Schema.encode\<close>: the list comprehension over \<^verbatim>\<open>enumerate(self.fields)\<close>, which
  encodes \<^verbatim>\<open>item[i]\<close> with the field of index \<open>i\<close>, and the \<^verbatim>\<open>b''.join\<close> of its
  results.
\<close>

fun encode_fields :: "codec list \<Rightarrow> pyval list \<Rightarrow> nat \<Rightarrow> (error + bytes) option" where
  "encode_fields [] xs i = Some (Inr [])"
| "encode_fields (f # fs) xs i =
     (if i < length xs then
        bind (encode f (xs ! i)) (\<lambda>b.
        bind (encode_fields fs xs (Suc i)) (\<lambda>bs. Some (Inr (b @ bs))))
      else Some (Inl IndexError))"

definition Schema_encode :: "codec list \<Rightarrow> pyval \<Rightarrow> (error + bytes) option" where
  "Schema_encode flds item =
     (case py_seq item of
        Inl e \<Rightarrow> Some (Inl e)
      | Inr xs \<Rightarrow>
          if len xs \<noteq> len flds then
            Some (Inl (ValueError ''Item field count does not match Schema''))
          else encode_fields flds xs 0)"

text \<open>\<^verbatim>\<open>Schema.decode\<close>: every field decodes from where the one before stopped.\<close>

fun Schema_decode :: "codec list \<Rightarrow> bytes \<Rightarrow> error + (pyval list \<times> bytes)" where
  "Schema_decode [] buf = Inr ([], buf)"
| "Schema_decode (f # fs) buf =
     (case decode f buf of
        Inl e \<Rightarrow> Inl e
      | Inr (v, buf') \<Rightarrow>
          (case Schema_decode fs buf' of
             Inl e \<Rightarrow> Inl e
           | Inr (vs, buf'') \<Rightarrow> Inr (v # vs, buf'')))"

text \<open>
  \<^verbatim>\<open>Schema(*fields)\<close> takes pairs of a name and a codec; the names serve \<^verbatim>\<open>repr\<close>
  only.
\<close>

definition Schema :: "(string \<times> codec) list \<Rightarrow> codec" where
  "Schema flds =
     \<lparr>encode = Schema_encode (map snd flds),
      decode = (\<lambda>buf. returning PTuple (Schema_decode (map snd flds) buf))\<rparr>"

section \<open>Array\<close>

fun encode_items :: "codec \<Rightarrow> pyval list \<Rightarrow> (error + bytes) option" where
  "encode_items c [] = Some (Inr [])"
| "encode_items c (x # xs) =
     bind (encode c x) (\<lambda>b.
     bind (encode_items c xs) (\<lambda>bs. Some (Inr (b @ bs))))"

definition Array_encode :: "len_encoder \<Rightarrow> codec \<Rightarrow> pyval \<Rightarrow> (error + bytes) option" where
  "Array_encode lenc array_of items =
     (case items of
        PNone \<Rightarrow> lenc (- 1)
      | _ \<Rightarrow>
          (case py_seq items of
             Inl e \<Rightarrow> Some (Inl e)
           | Inr xs \<Rightarrow>
               bind (lenc (len xs)) (\<lambda>l.
               bind (encode_items array_of xs) (\<lambda>bs. Some (Inr (l @ bs))))))"

text \<open>
  The comprehension \<^verbatim>\<open>[self.array_of.decode(data) for _ in range(length)]\<close>, on the
  number of iterations: \<^verbatim>\<open>range(length)\<close> is empty when \<open>length\<close> is zero or negative,
  so \<^verbatim>\<open>Array.decode\<close> runs it \<open>nat length\<close> times.
\<close>

fun decode_items :: "codec \<Rightarrow> nat \<Rightarrow> bytes \<Rightarrow> error + (pyval list \<times> bytes)" where
  "decode_items c 0 buf = Inr ([], buf)"
| "decode_items c (Suc k) buf =
     (case decode c buf of
        Inl e \<Rightarrow> Inl e
      | Inr (v, buf') \<Rightarrow>
          (case decode_items c k buf' of
             Inl e \<Rightarrow> Inl e
           | Inr (vs, buf'') \<Rightarrow> Inr (v # vs, buf'')))"

definition Array_decode :: "len_decoder \<Rightarrow> codec \<Rightarrow> bytes \<Rightarrow> error + (pyval list option \<times> bytes)" where
  "Array_decode ldec array_of buf =
     (case ldec buf of
        Inl e \<Rightarrow> Inl e
      | Inr (n, buf') \<Rightarrow>
          if n = - 1 then Inr (None, buf')
          else
            (case decode_items array_of (nat n) buf' of
               Inl e \<Rightarrow> Inl e
             | Inr (vs, buf'') \<Rightarrow> Inr (Some vs, buf'')))"

text \<open>
  \<^verbatim>\<open>Array(array_of)\<close> on one codec; \<^verbatim>\<open>Array(*fields)\<close> on several pairs of a name and a
  codec makes \<^verbatim>\<open>Schema(*fields)\<close> its element codec.
\<close>

definition Array :: "codec \<Rightarrow> codec" where
  "Array array_of =
     \<lparr>encode = Array_encode Array_len_encoder array_of,
      decode = (\<lambda>buf. returning (or_None PList) (Array_decode Array_len_decoder array_of buf))\<rparr>"

definition CompactArray :: "codec \<Rightarrow> codec" where
  "CompactArray array_of =
     \<lparr>encode = Array_encode VarInt_len_encoder array_of,
      decode = (\<lambda>buf. returning (or_None PList) (Array_decode VarInt_len_decoder array_of buf))\<rparr>"

section \<open>TaggedField\<close>

text \<open>
  \<^verbatim>\<open>TaggedField.decode\<close> returns the pair \<^verbatim>\<open>(tag, val)\<close>, \<open>val\<close> a byte string or
  \<^verbatim>\<open>None\<close>; the \<^verbatim>\<open>assert\<close> raises \<^verbatim>\<open>AssertionError\<close>.
\<close>

definition TaggedField_decode :: "bytes \<Rightarrow> error + ((int \<times> bytes option) \<times> bytes)" where
  "TaggedField_decode buf =
     (case read_unsigned_varint buf of
        Inl e \<Rightarrow> Inl e
      | Inr (tag, buf1) \<Rightarrow>
          (case VarInt_len_decoder buf1 of
             Inl e \<Rightarrow> Inl e
           | Inr (sz, buf2) \<Rightarrow>
               if sz > 0 then
                 (let (val, buf3) = read (sz - 1) buf2
                  in if len val = sz - 1 then Inr ((tag, Some val), buf3)
                     else Inl AssertionError)
               else Inr ((tag, None), buf2)))"

text \<open>
  \<^verbatim>\<open>TaggedField.encode\<close> evaluates
  \<^verbatim>\<open>VarInt.write_unsigned_varint(tag).read() + VarInt.len_encoder(size) + val\<close> from left
  to right; adding \<^verbatim>\<open>None\<close> to a byte string is a \<^verbatim>\<open>TypeError\<close>.
\<close>

definition TaggedField_encode :: "int \<times> bytes option \<Rightarrow> (error + bytes) option" where
  "TaggedField_encode x =
     (let (tag, val) = x;
          sz = (case val of None \<Rightarrow> - 1 | Some bs \<Rightarrow> len bs)
      in bind (write_unsigned_varint tag) (\<lambda>a.
         bind (VarInt_len_encoder sz) (\<lambda>b.
           (case val of
              None \<Rightarrow> Some (Inl TypeError)
            | Some bs \<Rightarrow> Some (Inr (a @ b @ bs))))))"

section \<open>Reading the code's loops\<close>

text \<open>
  \<open>read_from v i buf\<close> is \<^verbatim>\<open>read_unsigned_varint\<close> from the point where it reads a
  byte, with \<open>value = v\<close> and shift \<open>i\<close>: the function itself starts at \<open>read_from 0 0\<close>.
\<close>

definition read_from :: "int \<Rightarrow> nat \<Rightarrow> bytes \<Rightarrow> error + (int \<times> bytes)" where
  "read_from v i buf = read_loop (fst (read_byte buf)) v i (snd (read_byte buf))"

text \<open>
  The number a sequence of bytes stands for in the words of the specification: 7-bit
  groups, least significant group first, the top bit of every byte left out.
\<close>

fun varint_value :: "bytes \<Rightarrow> int" where
  "varint_value [] = 0"
| "varint_value (b # bs) = (uint b AND 0x7f) OR push_bit 7 (varint_value bs)"

section \<open>Bits and bytes\<close>

declare read_loop.simps [simp del]

lemma and_7f: "(v::int) AND 0x7f = take_bit 7 v"
  by (simp add: take_bit_eq_mask mask_eq_exp_minus_1)

lemma mask_hi: "(0xffffff80::int) = push_bit 7 (mask 25)"
  by (simp add: mask_eq_exp_minus_1 push_bit_eq_mult)

lemma and_hi: "(v::int) AND 0xffffff80 = push_bit 7 (take_bit 25 (drop_bit 7 v))"
  unfolding mask_hi by (rule bit_eqI) (auto simp add: bit_simps)

lemma and_hi_zero_iff: "((v::int) AND 0xffffff80 = 0) = (v div 128 mod 2 ^ 25 = 0)"
  by (simp add: and_hi take_bit_eq_mod drop_bit_eq_div)

lemma and_exp: "(v::int) AND 2 ^ k = push_bit k (take_bit 1 (drop_bit k v))"
  by (rule bit_eqI) (auto simp add: bit_simps even_drop_bit_iff_not_bit)

lemma and_80: "(v::int) AND 0x80 = push_bit 7 (take_bit 1 (drop_bit 7 v))"
  using and_exp [of v 7] by simp

lemma and_80_zero_iff: "((v::int) AND 0x80 = 0) = (v div 128 mod 2 = 0)"
  by (simp add: and_80 take_bit_eq_mod drop_bit_eq_div)

lemma split7: "take_bit 7 (v::int) OR push_bit 7 (drop_bit 7 v) = v"
proof -
  have "take_bit 7 v + push_bit 7 (drop_bit 7 v) = take_bit 7 v OR push_bit 7 (drop_bit 7 v)"
    by (rule disjunctive_add) (auto simp add: bit_simps)
  then show ?thesis using bits_ident [of 7 v] by simp
qed

lemma or_exp: "take_bit k (v::int) OR 2 ^ k = take_bit k v + 2 ^ k"
  by (rule disjunctive_add [symmetric]) (auto simp add: bit_simps)

lemma cont_byte: "take_bit 7 (v::int) OR 0x80 = v mod 128 + 128"
  using or_exp [of 7 v] by (simp add: take_bit_eq_mod)

lemma uint_byte: "0 \<le> v \<Longrightarrow> v < 256 \<Longrightarrow> uint (word_of_int v :: byte) = v"
  by (simp add: uint_word_of_int take_bit_int_eq_self)

lemma uint_lt: "uint (b::byte) < 256" 
  using uint_bounded [of b] by simp

section \<open>The loop of read_unsigned_varint\<close>

lemma read_byte_Nil: "read_byte [] = (0, [])"
  by (simp add: read_byte_def read_def len_def)

lemma read_byte_Cons: "read_byte (x # xs) = (uint x, xs)"
  by (simp add: read_byte_def read_def len_def)

lemma read_unsigned_varint_from: "read_unsigned_varint buf = read_from 0 0 buf"
  by (simp add: read_unsigned_varint_def read_from_def)

lemma read_from_Nil: "read_from v i [] = Inr (v, [])"
  by (simp add: read_from_def read_byte_Nil read_loop.simps [of 0])

lemma read_from_last:
  "uint f AND 0x80 = 0 \<Longrightarrow> read_from v i (f # buf) = Inr (v OR push_bit i (uint f), buf)"
  by (simp add: read_from_def read_byte_Cons read_loop.simps [of "uint f"])

lemma read_from_cont:
  "uint c AND 0x80 \<noteq> 0 \<Longrightarrow> i \<le> 21 \<Longrightarrow>
   read_from v i (c # buf) = read_from (v OR push_bit i (uint c AND 0x7f)) (i + 7) buf"
  by (simp add: read_from_def read_byte_Cons read_loop.simps [of "uint c"])

lemma read_from_overflow:
  "uint c AND 0x80 \<noteq> 0 \<Longrightarrow> 21 < i \<Longrightarrow>
   read_from v i (c # buf) = Inl (Exception (v OR push_bit i (uint c AND 0x7f)))"
  by (simp add: read_from_def read_byte_Cons read_loop.simps [of "uint c"])

lemma read_from_conts:
  "\<forall>c\<in>set cs. uint c AND 0x80 \<noteq> 0 \<Longrightarrow> i + 7 * length cs \<le> 28 \<Longrightarrow>
   read_from v i (cs @ buf) = read_from (v OR push_bit i (varint_value cs)) (i + 7 * length cs) buf"
proof (induction cs arbitrary: v i)
  case Nil
  then show ?case by simp
next
  case (Cons c cs)
  have "read_from v i ((c # cs) @ buf) = read_from (v OR push_bit i (uint c AND 0x7f)) (i + 7) (cs @ buf)"
    using Cons.prems by (simp add: read_from_cont)
  also have "\<dots> = read_from ((v OR push_bit i (uint c AND 0x7f)) OR push_bit (i + 7) (varint_value cs))
      (i + 7 + 7 * length cs) buf"
    using Cons.prems by (intro Cons.IH) simp_all
  finally show ?case by (simp add: or.assoc add.assoc)
qed

lemma varint_value_append:
  "varint_value (xs @ ys) = varint_value xs OR push_bit (7 * length xs) (varint_value ys)"
  by (induction xs) (simp_all add: or.assoc add.commute)

lemma low7:
  assumes "uint (f::byte) AND 0x80 = 0"
  shows "uint f AND 0x7f = uint f"
proof -
  have m: "uint f div 128 mod 2 = 0" using assms by (simp add: and_80_zero_iff)
  have "uint f div 128 < 2" using uint_lt [of f] by simp
  moreover have "0 \<le> uint f div 128" by (simp add: pos_imp_zdiv_nonneg_iff)
  ultimately have "uint f div 128 = 0" using m by simp
  then have "uint f < 128" by (simp add: div_eq_0_iff)
  then show ?thesis by (simp add: and_7f take_bit_int_eq_self)
qed

lemma varint_value_last: "uint f AND 0x80 = 0 \<Longrightarrow> varint_value [f] = uint f"
  by (simp add: low7)

section \<open>The loop of write_unsigned_varint\<close>

lemma pack_B_cont: "pack_B ((v AND 0x7f) OR 0x80) = Inr [word_of_int (v mod 128 + 128)]"
proof -
  have "0 \<le> v mod 128" "v mod 128 < 128" by simp_all
  then show ?thesis by (simp add: pack_B_def and_7f cont_byte)
qed

lemma write_loop_more:
  "v div 128 mod 2 ^ 25 \<noteq> 0 \<Longrightarrow>
   write_loop v buf = write_loop (v div 128) (buf @ [word_of_int (v mod 128 + 128)])"
  by (subst write_loop.simps) (simp add: and_hi_zero_iff pack_B_cont drop_bit_eq_div)

lemma write_loop_done:
  "v div 128 mod 2 ^ 25 = 0 \<Longrightarrow>
   write_loop v buf = (case pack_B v of Inl e \<Rightarrow> Some (Inl e) | Inr bs \<Rightarrow> Some (Inr (buf @ bs)))"
  by (subst write_loop.simps) (simp add: and_hi_zero_iff)

lemma write_loop_small:
  "0 \<le> v \<Longrightarrow> v < 128 \<Longrightarrow> write_loop v buf = Some (Inr (buf @ [word_of_int v]))"
  by (simp add: write_loop_done pack_B_def)

lemma write_loop_big:
  "128 \<le> v \<Longrightarrow> v < 2 ^ 32 \<Longrightarrow>
   write_loop v buf = write_loop (v div 128) (buf @ [word_of_int (v mod 128 + 128)])"
proof (rule write_loop_more)
  assume a: "128 \<le> v" "v < 2 ^ 32"
  then have "1 \<le> v div 128" "v div 128 < 2 ^ 25" by simp_all
  then show "v div 128 mod 2 ^ 25 \<noteq> 0" by simp
qed

lemma write_loop_terminates: "0 \<le> v \<Longrightarrow> \<exists>r. write_loop v buf = Some r"
proof (induction "nat v" arbitrary: v buf rule: less_induct)
  case less
  show ?case
  proof (cases "v div 128 mod 2 ^ 25 = 0")
    case True
    then show ?thesis by (simp add: write_loop_done split: sum.split)
  next
    case False
    then have "v div 128 \<noteq> 0" by auto
    with less.prems have "128 \<le> v" by (simp add: div_eq_0_iff) 
    then have "nat (v div 128) < nat v" "0 \<le> v div 128" by simp_all
    then show ?thesis using less.hyps [of "v div 128"] False by (simp add: write_loop_more)
  qed
qed

lemma neg_mod_nonzero: "- m < w \<Longrightarrow> w < 0 \<Longrightarrow> w mod m \<noteq> (0::int)"
proof -
  assume a: "- m < w" "w < 0"
  then have "0 \<le> w + m" "w + m < m" by simp_all
  then have "(w + m) mod m = w + m" by (rule mod_pos_pos_trivial)
  then have "w mod m = w + m" by simp
  with a show ?thesis by simp
qed

lemma write_loop_diverges:
  assumes "- (2 ^ 32) + 128 \<le> v" "v < 0"
  shows "write_loop v buf = None"
proof (rule ccontr)
  assume "write_loop v buf \<noteq> None"
  then obtain r where r: "write_loop v buf = Some r" by auto
  have "\<not> (- (2 ^ 32) + 128 \<le> v \<and> v < 0)"
    using r
  proof (induction v buf r rule: write_loop.raw_induct)
    case (1 write_loop' v buf r)
    show ?case
    proof
      assume a: "- (2 ^ 32) + 128 \<le> v \<and> v < 0"
      then have a1: "- 4294967168 \<le> v" and a2: "v < 0" by simp_all
      have d: "- (2 ^ 25) < v div 128" "v div 128 < 0" using a1 a2 by simp_all
      have nz: "v div 128 mod 2 ^ 25 \<noteq> 0" using d by (rule neg_mod_nonzero)
      have s1: "write_loop' (v div 128) (buf @ [word_of_int (v mod 128 + 128)]) = Some r"
        using 1(2) nz by (simp add: and_hi_zero_iff pack_B_cont drop_bit_eq_div)
      have s2: "write_loop (v div 128) (buf @ [word_of_int (v mod 128 + 128)]) = Some r"
        using 1(3) nz by (simp add: write_loop_more)
      have "\<not> (- (2 ^ 32) + 128 \<le> v div 128 \<and> v div 128 < 0)"
        by (rule 1(1) [OF s1 s2])
      with d show False by simp
    qed
  qed (fact r)
  with assms show False by simp
qed

section \<open>Writing, then reading\<close>

lemma cont_byte_flag: "uint (word_of_int (v mod 128 + 128) :: byte) AND 0x80 \<noteq> 0"
proof -
  have "0 \<le> v mod 128" "v mod 128 < 128" by simp_all
  then have u: "uint (word_of_int (v mod 128 + 128) :: byte) = v mod 128 + 128"
    by (intro uint_byte) simp_all
  have "(v mod 128 + 128) div 128 = 1" by simp
  then show ?thesis unfolding u by (simp only: and_80_zero_iff) simp
qed

lemma cont_byte_low: "uint (word_of_int (v mod 128 + 128) :: byte) AND 0x7f = take_bit 7 v"
proof -
  have "0 \<le> v mod 128" "v mod 128 < 128" by simp_all
  then have u: "uint (word_of_int (v mod 128 + 128) :: byte) = v mod 128 + 128"
    by (intro uint_byte) simp_all
  show ?thesis unfolding u by (simp add: and_7f take_bit_eq_mod)
qed

lemma last_byte_flag: "0 \<le> v \<Longrightarrow> v < 128 \<Longrightarrow> uint (word_of_int v :: byte) AND 0x80 = 0"
  by (simp add: uint_byte and_80_zero_iff)

lemma read_from_small:
  assumes "0 \<le> v" "v < 128"
  shows "read_from acc i (word_of_int v # rest) = Inr (acc OR push_bit i v, rest)"
proof -
  have u: "uint (word_of_int v :: byte) = v" using assms by (intro uint_byte) simp_all
  show ?thesis using read_from_last [OF last_byte_flag [OF assms], of acc i rest] by (simp only: u)
qed

lemma write_read:
  "0 \<le> v \<Longrightarrow> v < 2 ^ 32 \<Longrightarrow> v < 2 ^ (7 * Suc k) \<Longrightarrow> i + 7 * k \<le> 28 \<Longrightarrow>
   \<exists>bs. write_loop v buf = Some (Inr (buf @ bs)) \<and>
        (\<forall>acc rest. read_from acc i (bs @ rest) = Inr (acc OR push_bit i v, rest))"
proof (induction k arbitrary: v i buf)
  case 0
  then have small: "v < 128" by simp
  with 0 show ?case
    by (intro exI [of _ "[word_of_int v]"])
       (simp add: write_loop_small read_from_small)
next
  case (Suc k)
  show ?case
  proof (cases "v < 128")
    case True
    with Suc.prems show ?thesis
      by (intro exI [of _ "[word_of_int v]"])
         (simp add: write_loop_small read_from_small)
  next
    case False
    then have big: "128 \<le> v" by simp
    have "v < 128 * 2 ^ (7 * Suc k)" using Suc.prems(3) by (simp add: power_add)
    then have d: "v div 128 < 2 ^ (7 * Suc k)" by simp
    have d0: "0 \<le> v div 128" "v div 128 < 2 ^ 32" using Suc.prems(1,2) by simp_all
    have i: "i + 7 + 7 * k \<le> 28" "i \<le> 21" using Suc.prems(4) by simp_all
    obtain bs where w: "write_loop (v div 128) (buf @ [word_of_int (v mod 128 + 128)])
        = Some (Inr ((buf @ [word_of_int (v mod 128 + 128)]) @ bs))"
      and r: "\<And>acc rest. read_from acc (i + 7) (bs @ rest) = Inr (acc OR push_bit (i + 7) (v div 128), rest)"
      using Suc.IH [OF d0 d i(1)] by blast
    have "write_loop v buf = Some (Inr (buf @ (word_of_int (v mod 128 + 128) # bs)))"
      using w big Suc.prems(2) by (simp add: write_loop_big)
    moreover have "read_from acc i ((word_of_int (v mod 128 + 128) # bs) @ rest) = Inr (acc OR push_bit i v, rest)"
      for acc rest
    proof -
      have "read_from acc i ((word_of_int (v mod 128 + 128) # bs) @ rest)
          = read_from (acc OR push_bit i (take_bit 7 v)) (i + 7) (bs @ rest)"
        using i(2) by (simp only: append_Cons read_from_cont [OF cont_byte_flag] cont_byte_low)
      also have "\<dots> = Inr ((acc OR push_bit i (take_bit 7 v)) OR push_bit (i + 7) (v div 128), rest)"
        by (rule r)
      also have "(acc OR push_bit i (take_bit 7 v)) OR push_bit (i + 7) (v div 128)
          = acc OR push_bit i (take_bit 7 v OR push_bit 7 (drop_bit 7 v))"
        by (simp add: or.assoc drop_bit_eq_div add.commute)
      finally show ?thesis by (simp only: split7)
    qed
    ultimately show ?thesis by blast
  qed
qed

lemma write_read_unsigned:
  assumes "0 \<le> v" "v < 2 ^ 32"
  shows "\<exists>bs. write_unsigned_varint v = Some (Inr bs) \<and>
           (\<forall>rest. read_unsigned_varint (bs @ rest) = Inr (v, rest))"
proof -
  have "v < 2 ^ (7 * Suc 4)" using assms(2) by simp
  from write_read [OF assms this, of 0 "[]"]
  obtain bs where w: "write_loop v [] = Some (Inr bs)"
    and r: "\<And>acc rest. read_from acc 0 (bs @ rest) = Inr (acc OR push_bit 0 v, rest)"
    by auto
  have "read_unsigned_varint (bs @ rest) = Inr (v, rest)" for rest
    using r [of 0 rest] by (simp add: read_unsigned_varint_from)
  with w show ?thesis by (simp add: write_unsigned_varint_def)
qed

section \<open>Fixed-width integers, written then read\<close>

lemma length_be_bytes: "length (be_bytes w n) = w"
  by (induction w) simp_all

lemma take_bit_split8:
  "take_bit (8 * Suc k) (n::int) = take_bit 8 (drop_bit (8 * k) n) * 2 ^ (8 * k) + take_bit (8 * k) n"
proof -
  have "push_bit (8 * k) (drop_bit (8 * k) (take_bit (8 * Suc k) n)) + take_bit (8 * k) (take_bit (8 * Suc k) n)
      = take_bit (8 * Suc k) n"
    by (rule bits_ident)
  then show ?thesis
    by (simp add: drop_bit_take_bit push_bit_eq_mult min_def)
qed

lemma uint_byte_take_bit: "uint (word_of_int x :: byte) = take_bit 8 x"
  by (simp add: uint_word_of_int_eq)

lemma foldl_be_bytes:
  "foldl (\<lambda>a b. a * 256 + uint (b::byte)) a (be_bytes k n) = a * 2 ^ (8 * k) + take_bit (8 * k) n"
proof (induction k arbitrary: a)
  case 0
  then show ?case by simp
next
  case (Suc k)
  have p: "(2::int) ^ (8 * Suc k) = 256 * 2 ^ (8 * k)" by (simp add: power_add)
  show ?case
    by (simp only: be_bytes.simps foldl_Cons Suc.IH take_bit_split8 uint_byte_take_bit p)
       (simp add: algebra_simps)
qed

lemma be_unsigned_be_bytes: "be_unsigned (be_bytes w n) = take_bit (8 * w) n"
  by (simp add: be_unsigned_def foldl_be_bytes)

lemma unpack_int_be_bytes:
  assumes "0 < w" "- (2 ^ (8 * w - 1)) \<le> n" "n < 2 ^ (8 * w - 1)"
  shows "unpack_int w (be_bytes w n) = Inr n"
proof -
  have p: "(2::int) ^ (8 * w) = 2 * 2 ^ (8 * w - 1)"
    using assms(1) by (cases w) (simp_all add: power_add)
  show ?thesis
  proof (cases "0 \<le> n")
    case True
    then have "take_bit (8 * w) n = n"
      using assms(3) p by (intro take_bit_int_eq_self) simp_all
    with assms(3) show ?thesis
      by (simp add: unpack_int_def length_be_bytes be_unsigned_be_bytes)
  next
    case False
    then have "0 \<le> n + 2 ^ (8 * w)" "n + 2 ^ (8 * w) < 2 ^ (8 * w)"
      using assms(2) p by simp_all
    then have "(n + 2 ^ (8 * w)) mod 2 ^ (8 * w) = n + 2 ^ (8 * w)"
      by (rule mod_pos_pos_trivial)
    then have "take_bit (8 * w) n = n + 2 ^ (8 * w)"
      by (simp add: take_bit_eq_mod)
    with assms(2) p show ?thesis
      by (simp add: unpack_int_def length_be_bytes be_unsigned_be_bytes)
  qed
qed

lemma read_append: "read (int (length xs)) (xs @ ys) = (xs, ys)"
  by (simp add: read_def)

lemma decode_int_be_bytes:
  assumes "0 < w" "- (2 ^ (8 * w - 1)) \<le> n" "n < 2 ^ (8 * w - 1)"
  shows "decode_int w (be_bytes w n @ rest) = Inr (n, rest)"
  using read_append [of "be_bytes w n" rest] unpack_int_be_bytes [OF assms]
  by (simp add: decode_int_def length_be_bytes)

lemma pack_int_PInt:
  "- (2 ^ (8 * w - 1)) \<le> n \<Longrightarrow> n < 2 ^ (8 * w - 1) \<Longrightarrow> pack_int w (PInt n) = Inr (be_bytes w n)"
  by (simp add: pack_int_def)

section \<open>The zigzag transform\<close>

lemma zigzag_nonneg:
  assumes "0 \<le> v" "v < 2 ^ 31"
  shows "push_bit 1 v XOR drop_bit 31 v = 2 * (v::int)"
proof -
  have "drop_bit 31 v = 0" using assms by (simp add: drop_bit_eq_div)
  then show ?thesis by (simp add: push_bit_eq_mult)
qed

lemma neg_div_minus1:
  assumes "- m \<le> w" "w < 0"
  shows "w div m = (- 1::int)"
proof -
  have m: "m \<noteq> 0" using assms by auto
  have "0 \<le> w + m" "w + m < m" using assms by simp_all
  then have "(w + m) div m = 0" by (rule div_pos_pos_trivial)
  moreover have "(w + m) div m = w div m + 1" using m by (rule div_add_self2)
  ultimately show ?thesis by simp
qed

lemma zigzag_neg:
  assumes "- (2 ^ 31) \<le> v" "v < 0"
  shows "push_bit 1 v XOR drop_bit 31 v = - 2 * (v::int) - 1"
proof -
  have "v div 2 ^ 31 = - 1" using assms by (intro neg_div_minus1) simp_all
  then have "drop_bit 31 v = - 1" by (simp add: drop_bit_eq_div)
  then show ?thesis by (simp add: push_bit_eq_mult not_int_def)
qed

lemma unzigzag_even: "drop_bit 1 (2 * v) XOR - ((2 * v) AND 1) = (v::int)"
  by (simp add: drop_bit_eq_div and_one_eq)

lemma unzigzag_odd: "drop_bit 1 (- 2 * v - 1) XOR - ((- 2 * v - 1) AND 1) = (v::int)"
proof -
  have "(- 2 * v - 1) mod 2 = 1" by presburger
  moreover have "(- 2 * v - 1) div 2 = - v - 1" by presburger
  ultimately show ?thesis by (simp add: drop_bit_eq_div and_one_eq not_int_def)
qed

lemmas varint_eval =
  write_unsigned_varint_def write_loop.simps pack_B_def
  read_unsigned_varint_def read_loop.simps read_byte_def read_def len_def

section \<open>Evaluation of the integer codecs and of decode loops\<close>

lemma be_bytes_numeral:
  "be_bytes (numeral k) n = word_of_int (drop_bit (8 * pred_numeral k) n) # be_bytes (pred_numeral k) n"
  by (simp add: numeral_eq_Suc)

lemma be_bytes_1: "be_bytes 1 n = [word_of_int n]"
  using be_bytes.simps(2) [of 0 n] by simp

lemma decode_items_0: "decode_items c 0 buf = Inr ([], buf)"
  by simp

lemma decode_items_numeral:
  "decode_items c (numeral k) buf =
     (case decode c buf of
        Inl e \<Rightarrow> Inl e
      | Inr (v, buf') \<Rightarrow>
          (case decode_items c (pred_numeral k) buf' of
             Inl e \<Rightarrow> Inl e
           | Inr (vs, buf'') \<Rightarrow> Inr (v # vs, buf'')))"
  by (simp add: numeral_eq_Suc)

lemmas int_eval =
  Int16_encode_def Int16_decode_def Int32_encode_def Int32_decode_def
  pack_int_def unpack_int_def decode_int_def be_unsigned_def be_bytes_numeral be_bytes_1
  read_def len_def

section \<open>One element of the array, written then read\<close>

lemma Int32_encode_PInt:
  "- (2 ^ 31) \<le> n \<Longrightarrow> n < 2 ^ 31 \<Longrightarrow> Int32_encode (PInt n) = Inr (be_bytes 4 n)"
  by (simp add: Int32_encode_def pack_int_def)

lemma Int16_encode_PInt:
  "- (2 ^ 15) \<le> n \<Longrightarrow> n < 2 ^ 15 \<Longrightarrow> Int16_encode (PInt n) = Inr (be_bytes 2 n)"
  by (simp add: Int16_encode_def pack_int_def)

lemma Int32_decode_be_bytes:
  "- (2 ^ 31) \<le> n \<Longrightarrow> n < 2 ^ 31 \<Longrightarrow> Int32_decode (be_bytes 4 n @ rest) = Inr (n, rest)"
  unfolding Int32_decode_def by (rule decode_int_be_bytes) simp_all

lemma Int16_decode_be_bytes:
  "- (2 ^ 15) \<le> n \<Longrightarrow> n < 2 ^ 15 \<Longrightarrow> Int16_decode (be_bytes 2 n @ rest) = Inr (n, rest)"
  unfolding Int16_decode_def by (rule decode_int_be_bytes) simp_all

lemma read_len_append: "read (len xs) (xs @ ys) = (xs, ys)"
  by (simp add: read_def len_def)

lemma String_encode_PStr:
  assumes "str_encode enc s = Inr bs" "length bs < 2 ^ 15"
  shows "String_encode String_len_encoder enc (PStr s) = Some (Inr (be_bytes 2 (len bs) @ bs))"
proof -
  have "Int16_encode (PInt (len bs)) = Inr (be_bytes 2 (len bs))"
    using assms(2) by (intro Int16_encode_PInt) (simp_all add: len_def)
  then show ?thesis
    using assms(1) by (simp add: String_encode_def String_len_encoder_def bind_def)
qed

lemma String_decode_PStr:
  assumes "length bs < 2 ^ 15" "bytes_decode enc bs = Inr s"
  shows "String_decode String_len_decoder enc (be_bytes 2 (len bs) @ bs @ rest) = Inr (Some s, rest)"
proof -
  have "Int16_decode (be_bytes 2 (len bs) @ bs @ rest) = Inr (len bs, bs @ rest)"
    using assms(1) by (intro Int16_decode_be_bytes) (simp_all add: len_def)
  moreover have "0 \<le> len bs" by (simp add: len_def)
  ultimately show ?thesis
    using assms(2) by (simp add: String_decode_def String_len_decoder_def read_len_append)
qed

lemma Schema_pair_encode:
  assumes "- (2 ^ 31) \<le> n" "n < 2 ^ 31" "str_encode enc s = Inr bs" "length bs < 2 ^ 15"
  shows "encode (Schema [(a, Int32), (b, String enc)]) (PTuple [PInt n, PStr s])
    = Some (Inr (be_bytes 4 n @ be_bytes 2 (len bs) @ bs))"
  using Int32_encode_PInt [OF assms(1,2)] String_encode_PStr [OF assms(3,4)]
  by (simp add: Schema_def Schema_encode_def Int32_def String_def bind_def len_def)

lemma Schema_pair_decode:
  assumes "- (2 ^ 31) \<le> n" "n < 2 ^ 31" "length bs < 2 ^ 15" "bytes_decode enc bs = Inr s"
  shows "decode (Schema [(a, Int32), (b, String enc)]) (be_bytes 4 n @ be_bytes 2 (len bs) @ bs @ rest)
    = Inr (PTuple [PInt n, PStr s], rest)"
  using Int32_decode_be_bytes [OF assms(1,2), of "be_bytes 2 (len bs) @ bs @ rest"]
    String_decode_PStr [OF assms(3,4), of rest]
  by (simp add: Schema_def Int32_def String_def returning_def or_None_def)

lemma items_roundtrip:
  assumes "\<forall>(n, s)\<in>set items. - (2 ^ 31) \<le> n \<and> n < 2 ^ 31 \<and>
     (\<exists>bs. str_encode enc s = Inr bs \<and> length bs < 2 ^ 15 \<and> bytes_decode enc bs = Inr s)"
  shows "\<exists>out. encode_items (Schema [(a, Int32), (b, String enc)])
        (map (\<lambda>(n, s). PTuple [PInt n, PStr s]) items) = Some (Inr out) \<and>
     (\<forall>rest. decode_items (Schema [(a, Int32), (b, String enc)]) (length items) (out @ rest)
        = Inr (map (\<lambda>(n, s). PTuple [PInt n, PStr s]) items, rest))"
  using assms
proof (induction items)
  case Nil
  then show ?case by simp
next
  case (Cons x items)
  obtain n s where x: "x = (n, s)" by (cases x)
  from Cons.prems x obtain bs where n: "- (2 ^ 31) \<le> n" "n < 2 ^ 31"
    and bs: "str_encode enc s = Inr bs" "length bs < 2 ^ 15" "bytes_decode enc bs = Inr s"
    by auto
  from Cons obtain out where e: "encode_items (Schema [(a, Int32), (b, String enc)])
        (map (\<lambda>(n, s). PTuple [PInt n, PStr s]) items) = Some (Inr out)"
    and d: "\<And>rest. decode_items (Schema [(a, Int32), (b, String enc)]) (length items) (out @ rest)
        = Inr (map (\<lambda>(n, s). PTuple [PInt n, PStr s]) items, rest)"
    by auto
  let ?o = "(be_bytes 4 n @ be_bytes 2 (len bs) @ bs) @ out"
  have "encode_items (Schema [(a, Int32), (b, String enc)])
        (map (\<lambda>(n, s). PTuple [PInt n, PStr s]) (x # items)) = Some (Inr ?o)"
    using Schema_pair_encode [OF n bs(1,2), of a b] e by (simp add: x bind_def)
  moreover have "decode_items (Schema [(a, Int32), (b, String enc)]) (length (x # items)) (?o @ rest)
        = Inr (map (\<lambda>(n, s). PTuple [PInt n, PStr s]) (x # items), rest)" for rest
    using Schema_pair_decode [OF n bs(2,3), of a b "out @ rest"] d [of rest] by (simp add: x)
  ultimately show ?case by blast
qed

section \<open>UTF-8, written then read\<close>

lemma unat_byte: "x < 256 \<Longrightarrow> unat (of_nat x :: byte) = x"
  by (simp add: unat_of_nat)

lemma utf8_decode_1:
  assumes "c < 0x80"
  shows "utf8_decode (of_nat c # rest) = cons_cp c (utf8_decode rest)"
proof -
  define b0 :: byte where "b0 = of_nat c"
  have "unat b0 = c" unfolding b0_def using assms by (intro unat_byte) simp
  then show ?thesis unfolding b0_def [symmetric] using assms by simp
qed

lemma utf8_decode_2:
  assumes "0x80 \<le> c" "c < 0x800"
  shows "utf8_decode (of_nat (0xC0 + c div 64) # of_nat (0x80 + c mod 64) # rest)
    = cons_cp c (utf8_decode rest)"
proof -
  define b0 :: byte where "b0 = of_nat (0xC0 + c div 64)"
  define b1 :: byte where "b1 = of_nat (0x80 + c mod 64)"
  have d: "2 \<le> c div 64" "c div 64 < 32" using assms by simp_all
  have m: "c mod 64 < 64" by simp
  have u0: "unat b0 = 0xC0 + c div 64"
    unfolding b0_def using d by (intro unat_byte) simp
  have u1: "unat b1 = 0x80 + c mod 64"
    unfolding b1_def using m by (intro unat_byte) simp
  have c: "c div 64 * 64 + c mod 64 = c" by simp
  show ?thesis unfolding b0_def [symmetric] b1_def [symmetric]
    using d m c by (simp add: u0 u1 is_cont_def cont_bits_def)
qed

lemma split3: "(c::nat) div 4096 * 4096 + c div 64 mod 64 * 64 + c mod 64 = c"
proof -
  define q where "q = c div 64"
  define r where "r = c mod 64"
  define q1 where "q1 = q div 64"
  define r1 where "r1 = q mod 64"
  have a: "c = q * 64 + r" by (simp add: q_def r_def)
  have b: "q = q1 * 64 + r1" by (simp add: q1_def r1_def)
  have "c div 4096 = q1" by (simp add: q1_def q_def div_mult2_eq)
  moreover have "c = q1 * 4096 + r1 * 64 + r" by (simp only: a b) (simp add: algebra_simps)
  ultimately show ?thesis unfolding q_def [symmetric] r_def [symmetric] r1_def [symmetric] by simp
qed

lemma utf8_decode_3:
  assumes "0x800 \<le> c" "c < 0x10000" "\<not> (0xD800 \<le> c \<and> c \<le> 0xDFFF)"
  shows "utf8_decode (of_nat (0xE0 + c div 4096) # of_nat (0x80 + c div 64 mod 64)
      # of_nat (0x80 + c mod 64) # rest)
    = cons_cp c (utf8_decode rest)"
proof -
  define b0 :: byte where "b0 = of_nat (0xE0 + c div 4096)"
  define b1 :: byte where "b1 = of_nat (0x80 + c div 64 mod 64)"
  define b2 :: byte where "b2 = of_nat (0x80 + c mod 64)"
  have d: "c div 4096 < 16" using assms by simp
  have m: "c div 64 mod 64 < 64" "c mod 64 < 64" by simp_all
  have u0: "unat b0 = 0xE0 + c div 4096"
    unfolding b0_def using d by (intro unat_byte) simp
  have u1: "unat b1 = 0x80 + c div 64 mod 64"
    unfolding b1_def using m by (intro unat_byte) simp
  have u2: "unat b2 = 0x80 + c mod 64"
    unfolding b2_def using m by (intro unat_byte) simp
  show ?thesis unfolding b0_def [symmetric] b1_def [symmetric] b2_def [symmetric]
    using d m assms by (simp add: u0 u1 u2 is_cont_def cont_bits_def split3)
qed

lemma split4:
  "(c::nat) div 262144 * 262144 + c div 4096 mod 64 * 4096 + c div 64 mod 64 * 64 + c mod 64 = c"
proof -
  define q where "q = c div 4096"
  define q1 where "q1 = q div 64"
  define r1 where "r1 = q mod 64"
  define t where "t = c div 64 mod 64 * 64 + c mod 64"
  have a: "c = q * 4096 + t" using split3 [of c] by (simp add: q_def t_def)
  have b: "q = q1 * 64 + r1" by (simp add: q1_def r1_def)
  have "c div 262144 = q1" by (simp add: q1_def q_def div_mult2_eq)
  moreover have "c = q1 * 262144 + r1 * 4096 + t" by (simp only: a b) (simp add: algebra_simps)
  ultimately show ?thesis unfolding q_def [symmetric] r1_def [symmetric] t_def by simp
qed

lemma utf8_decode_4:
  assumes "0x10000 \<le> c" "c < 0x110000"
  shows "utf8_decode (of_nat (0xF0 + c div 262144) # of_nat (0x80 + c div 4096 mod 64)
      # of_nat (0x80 + c div 64 mod 64) # of_nat (0x80 + c mod 64) # rest)
    = cons_cp c (utf8_decode rest)"
proof -
  define b0 :: byte where "b0 = of_nat (0xF0 + c div 262144)"
  define b1 :: byte where "b1 = of_nat (0x80 + c div 4096 mod 64)"
  define b2 :: byte where "b2 = of_nat (0x80 + c div 64 mod 64)"
  define b3 :: byte where "b3 = of_nat (0x80 + c mod 64)"
  have d: "c div 262144 < 5" using assms by simp
  have m: "c div 4096 mod 64 < 64" "c div 64 mod 64 < 64" "c mod 64 < 64" by simp_all
  have u0: "unat b0 = 0xF0 + c div 262144"
    unfolding b0_def using d by (intro unat_byte) simp
  have u1: "unat b1 = 0x80 + c div 4096 mod 64"
    unfolding b1_def using m by (intro unat_byte) simp
  have u2: "unat b2 = 0x80 + c div 64 mod 64"
    unfolding b2_def using m by (intro unat_byte) simp
  have u3: "unat b3 = 0x80 + c mod 64"
    unfolding b3_def using m by (intro unat_byte) simp
  show ?thesis unfolding b0_def [symmetric] b1_def [symmetric] b2_def [symmetric] b3_def [symmetric]
    using d m assms by (simp add: u0 u1 u2 u3 is_cont_def cont_bits_def split4)
qed

lemma utf8_decode_cp:
  assumes e: "utf8_encode_cp c = Inr bs"
  shows "utf8_decode (bs @ rest) = cons_cp c (utf8_decode rest)"
proof -
  consider (a) "c < 0x80" | (b) "0x80 \<le> c" "c < 0x800"
    | (c) "0x800 \<le> c" "c < 0x10000" | (d) "0x10000 \<le> c" "c < 0x110000"
    | (e) "0x110000 \<le> c"
    by linarith
  then show ?thesis
  proof cases
    case a
    with e have "bs = [of_nat c]" by (simp add: utf8_encode_cp_def)
    then show ?thesis by (simp only: append_Cons append_Nil utf8_decode_1 [OF a])
  next
    case b
    with e have "bs = [of_nat (0xC0 + c div 64), of_nat (0x80 + c mod 64)]"
      by (simp add: utf8_encode_cp_def)
    then show ?thesis by (simp only: append_Cons append_Nil utf8_decode_2 [OF b])
  next
    case c
    with e have s: "\<not> (0xD800 \<le> c \<and> c \<le> 0xDFFF)"
      by (auto simp add: utf8_encode_cp_def)
    with c e have "bs = [of_nat (0xE0 + c div 4096), of_nat (0x80 + c div 64 mod 64),
        of_nat (0x80 + c mod 64)]"
      by (simp add: utf8_encode_cp_def)
    then show ?thesis by (simp only: append_Cons append_Nil utf8_decode_3 [OF c s])
  next
    case d
    with e have "bs = [of_nat (0xF0 + c div 262144), of_nat (0x80 + c div 4096 mod 64),
        of_nat (0x80 + c div 64 mod 64), of_nat (0x80 + c mod 64)]"
      by (simp add: utf8_encode_cp_def)
    then show ?thesis by (simp only: append_Cons append_Nil utf8_decode_4 [OF d])
  next
    case e
    with assms show ?thesis by (simp add: utf8_encode_cp_def)
  qed
qed

lemma utf8_roundtrip: "utf8_encode s = Inr bs \<Longrightarrow> utf8_decode bs = Inr s"
proof (induction s arbitrary: bs)
  case Nil
  then show ?case by simp
next
  case (Cons c s)
  then obtain b1 b2 where b: "utf8_encode_cp c = Inr b1" "utf8_encode s = Inr b2" "bs = b1 @ b2"
    by (auto split: sum.splits)
  then show ?case using Cons.IH [OF b(2)] by (simp add: utf8_decode_cp cons_cp_def)
qed

section \<open>The array of structs, written then read\<close>

lemma Array_Schema_roundtrip:
  assumes len: "length items < 2 ^ 31"
    and items: "\<forall>(n, s)\<in>set items. - (2 ^ 31) \<le> n \<and> n < 2 ^ 31 \<and>
     (\<exists>bs. str_encode enc s = Inr bs \<and> length bs < 2 ^ 15 \<and> bytes_decode enc bs = Inr s)"
  shows "\<exists>out. encode (Array (Schema [(a, Int32), (b, String enc)]))
        (PList (map (\<lambda>(n, s). PTuple [PInt n, PStr s]) items)) = Some (Inr out) \<and>
     (\<forall>rest. decode (Array (Schema [(a, Int32), (b, String enc)])) (out @ rest)
        = Inr (PList (map (\<lambda>(n, s). PTuple [PInt n, PStr s]) items), rest))"
proof -
  let ?S = "Schema [(a, Int32), (b, String enc)]"
  let ?vs = "map (\<lambda>(n, s). PTuple [PInt n, PStr s]) items"
  from items_roundtrip [OF items, of a b]
  obtain out where e: "encode_items ?S ?vs = Some (Inr out)"
    and d: "\<And>rest. decode_items ?S (length items) (out @ rest) = Inr (?vs, rest)"
    by blast
  have r: "- (2 ^ 31) \<le> len ?vs" "len ?vs < 2 ^ 31" using len by (simp_all add: len_def)
  have l: "len ?vs = int (length items)" by (simp add: len_def)
  have "encode (Array ?S) (PList ?vs) = Some (Inr (be_bytes 4 (len ?vs) @ out))"
    using Int32_encode_PInt [OF r] e
    by (simp add: Array_def Array_encode_def Array_len_encoder_def bind_def)
  moreover have "decode (Array ?S) ((be_bytes 4 (len ?vs) @ out) @ rest) = Inr (PList ?vs, rest)"
    for rest
    using Int32_decode_be_bytes [OF r, of "out @ rest"] d [of rest]
    by (simp add: Array_def Array_decode_def Array_len_decoder_def returning_def or_None_def l)
  ultimately show ?thesis by blast
qed

lemma utf8_encode_replicate:
  "c < 0x80 \<Longrightarrow> utf8_encode (replicate k c) = Inr (replicate k (of_nat c))"
  by (induction k) (simp_all add: utf8_encode_cp_def)

lemmas codec_eval =
  Array_def Schema_def Int32_def String_def utf8_def Array_encode_def Array_decode_def
  Schema_encode_def bind_def Array_len_encoder_def Array_len_decoder_def
  String_len_encoder_def String_len_decoder_def String_encode_def String_decode_def
  Bytes_len_decoder_def Bytes_decode_def
  utf8_encode_cp_def returning_def or_None_def cons_cp_def is_cont_def cont_bits_def
  decode_items_numeral int_eval

section \<open>Claims on read_unsigned_varint\<close>

text \<open>
  Claim C5. \<^verbatim>\<open>read_unsigned_varint\<close> accepts every encoding of at most five 7-bit
  groups: up to four bytes with the continuation bit, then one byte without it, decode
  to the number the groups stand for, and the cursor stops behind the last byte. A fifth
  byte with the continuation bit makes it raise \<^verbatim>\<open>Exception(value)\<close>, whatever follows.
\<close>

theorem C5_read_unsigned_varint_five_groups:
  "(length cs \<le> 4 \<and> (\<forall>c\<in>set cs. uint c AND 0x80 \<noteq> 0) \<and> uint f AND 0x80 = 0 \<longrightarrow>
      read_unsigned_varint (cs @ f # rest) = Inr (varint_value (cs @ [f]), rest)) \<and>
   (length cs = 4 \<and> (\<forall>c\<in>set cs. uint c AND 0x80 \<noteq> 0) \<and> uint f AND 0x80 \<noteq> 0 \<longrightarrow>
      read_unsigned_varint (cs @ f # rest) = Inl (Exception (varint_value (cs @ [f]))))"
proof (intro conjI impI)
  assume a: "length cs \<le> 4 \<and> (\<forall>c\<in>set cs. uint c AND 0x80 \<noteq> 0) \<and> uint f AND 0x80 = 0"
  then have "read_unsigned_varint (cs @ f # rest)
      = read_from (0 OR push_bit 0 (varint_value cs)) (0 + 7 * length cs) (f # rest)"
    unfolding read_unsigned_varint_from by (intro read_from_conts) simp_all
  also have "\<dots> = Inr (varint_value cs OR push_bit (7 * length cs) (uint f), rest)"
    using a by (simp add: read_from_last)
  finally show "read_unsigned_varint (cs @ f # rest) = Inr (varint_value (cs @ [f]), rest)"
    using a by (simp add: varint_value_append low7)
next
  assume a: "length cs = 4 \<and> (\<forall>c\<in>set cs. uint c AND 0x80 \<noteq> 0) \<and> uint f AND 0x80 \<noteq> 0"
  then have "read_unsigned_varint (cs @ f # rest)
      = read_from (0 OR push_bit 0 (varint_value cs)) (0 + 7 * length cs) (f # rest)"
    unfolding read_unsigned_varint_from by (intro read_from_conts) simp_all
  also have "\<dots> = Inl (Exception (varint_value cs OR push_bit (7 * length cs) (uint f AND 0x7f)))"
    using a by (simp add: read_from_overflow)
  finally show "read_unsigned_varint (cs @ f # rest) = Inl (Exception (varint_value (cs @ [f])))"
    by (simp add: varint_value_append)
qed

text \<open>The five bytes of \<open>2\<^sup>3\<^sup>1 - 1\<close> decode; five continuation bytes raise.\<close>

theorem C5_read_unsigned_varint_five_groups_witness:
  "read_unsigned_varint [0xff, 0xff, 0xff, 0xff, 0x07] = Inr (2 ^ 31 - 1, []) \<and>
   read_unsigned_varint [0x80, 0x80, 0x80, 0x80, 0x81, 0x00] = Inl (Exception (2 ^ 28))"
  using C5_read_unsigned_varint_five_groups [of "[0xff, 0xff, 0xff, 0xff]" "0x07" "[]"]
    C5_read_unsigned_varint_five_groups [of "[0x80, 0x80, 0x80, 0x80]" "0x81" "[0x00]"]
  by simp

text \<open>
  Claim C7. When the buffer ends after continuation bytes (at most four of them, or
  none at all), \<^verbatim>\<open>read_unsigned_varint\<close> returns the value accumulated so far, exactly
  as if a zero byte followed; on the empty buffer it returns 0.
\<close>

theorem C7_read_unsigned_varint_end_of_buffer:
  "(length cs \<le> 4 \<and> (\<forall>c\<in>set cs. uint c AND 0x80 \<noteq> 0) \<longrightarrow>
      read_unsigned_varint cs = Inr (varint_value cs, []) \<and>
      read_unsigned_varint (cs @ [0]) = Inr (varint_value cs, [])) \<and>
   read_unsigned_varint [] = Inr (0, [])"
proof (intro conjI impI)
  assume a: "length cs \<le> 4 \<and> (\<forall>c\<in>set cs. uint c AND 0x80 \<noteq> 0)"
  have "read_unsigned_varint (cs @ buf)
      = read_from (0 OR push_bit 0 (varint_value cs)) (0 + 7 * length cs) buf" for buf
    unfolding read_unsigned_varint_from using a by (intro read_from_conts) simp_all
  from this [of "[]"] this [of "[0]"]
  show "read_unsigned_varint cs = Inr (varint_value cs, [])"
    and "read_unsigned_varint (cs @ [0]) = Inr (varint_value cs, [])"
    by (simp_all add: read_from_Nil read_from_last)
next
  show "read_unsigned_varint [] = Inr (0, [])"
    by (simp add: read_unsigned_varint_from read_from_Nil)
qed

theorem C7_read_unsigned_varint_end_of_buffer_witness:
  "read_unsigned_varint [0x85, 0x81] = Inr (133, []) \<and>
   read_unsigned_varint [0x85, 0x81, 0] = Inr (133, [])"
  using C7_read_unsigned_varint_end_of_buffer [of "[0x85, 0x81]"]
  by simp

section \<open>Claims on write_unsigned_varint\<close>

text \<open>
  The loop condition looks at bits 7 to 31 only. On \<open>- 2\<^sup>3\<^sup>2\<close>, a negative input, it is
  false at once, so the loop ends; on \<open>2\<^sup>3\<^sup>2\<close>, a non-negative input, it ends as well, and
  in both cases the last \<^verbatim>\<open>struct.pack(">B", value)\<close> raises instead of returning bytes.
\<close>

theorem C10_write_unsigned_varint_counterexample:
  "write_unsigned_varint (- (2 ^ 32)) = Some (Inl StructError) \<and>
   write_unsigned_varint (2 ^ 32) = Some (Inl StructError)"
  by (simp add: write_unsigned_varint_def write_loop.simps pack_B_def)

text \<open>
  Claim C10, amended. \<^verbatim>\<open>write_unsigned_varint\<close> terminates on every non-negative
  integer; below \<open>2\<^sup>3\<^sup>2\<close> it returns a byte sequence; and on every negative integer from
  \<open>- 2\<^sup>3\<^sup>2 + 128\<close> to \<open>- 1\<close>, which covers the negative 32-bit integers, the loop never
  ends.
\<close>

theorem C10_write_unsigned_varint_terminates:
  "(0 \<le> v \<longrightarrow> (\<exists>r. write_unsigned_varint v = Some r)) \<and>
   (0 \<le> v \<and> v < 2 ^ 32 \<longrightarrow> (\<exists>bs. write_unsigned_varint v = Some (Inr bs))) \<and>
   (- (2 ^ 32) + 128 \<le> v \<and> v < 0 \<longrightarrow> write_unsigned_varint v = None)"
proof (intro conjI impI)
  assume "0 \<le> v"
  then show "\<exists>r. write_unsigned_varint v = Some r"
    unfolding write_unsigned_varint_def by (rule write_loop_terminates)
next
  assume "0 \<le> v \<and> v < 2 ^ 32"
  then show "\<exists>bs. write_unsigned_varint v = Some (Inr bs)"
    using write_read_unsigned [of v] by blast
next
  assume "- (2 ^ 32) + 128 \<le> v \<and> v < 0"
  then show "write_unsigned_varint v = None"
    unfolding write_unsigned_varint_def by (intro write_loop_diverges) simp_all
qed

theorem C10_write_unsigned_varint_terminates_witness:
  "write_unsigned_varint 300 = Some (Inr [0xac, 0x02]) \<and> write_unsigned_varint (- 1) = None"
proof -
  have "write_unsigned_varint 300 = Some (Inr [0xac, 0x02])"
    by (simp add: write_unsigned_varint_def write_loop.simps pack_B_def)
  moreover have "write_unsigned_varint (- 1) = None"
    using C10_write_unsigned_varint_terminates [of "- 1"] by simp
  ultimately show ?thesis by simp
qed

section \<open>Claims on the compact length prefix\<close>

text \<open>
  The length encoder adds one and hands the sum to \<^verbatim>\<open>write_unsigned_varint\<close>, whose
  loop condition sees bits 7 to 31 only: at \<open>L = 2\<^sup>3\<^sup>2 - 1\<close> the loop ends at once on
  \<open>2\<^sup>3\<^sup>2\<close> and \<^verbatim>\<open>struct.pack(">B", value)\<close> raises.
\<close>

theorem C4_len_encoder_counterexample:
  "VarInt_len_encoder (2 ^ 32 - 1) = Some (Inl StructError)"
  by (simp add: VarInt_len_encoder_def varint_eval)

text \<open>
  Claim C4, amended. For every logical length \<open>L\<close> from \<open>- 1\<close> to \<open>2\<^sup>3\<^sup>2 - 2\<close>,
  \<^verbatim>\<open>VarInt.len_encoder\<close> returns the unsigned varint of \<open>L + 1\<close>, and
  \<^verbatim>\<open>VarInt.len_decoder\<close> on these bytes, whatever follows them, returns \<open>L\<close>. A
  \<^verbatim>\<open>CompactBytes\<close> blob of length 0 is the stored byte 1, which decodes to the empty
  blob; \<^verbatim>\<open>None\<close> is the stored byte 0, which decodes to \<^verbatim>\<open>None\<close>.
\<close>

theorem C4_compact_length_bias:
  "(- 1 \<le> L \<and> L < 2 ^ 32 - 1 \<longrightarrow>
      (\<exists>bs. VarInt_len_encoder L = Some (Inr bs) \<and>
            write_unsigned_varint (L + 1) = Some (Inr bs) \<and>
            (\<forall>rest. VarInt_len_decoder (bs @ rest) = Inr (L, rest)))) \<and>
   encode CompactBytes (PBytes []) = Some (Inr [1]) \<and>
   decode CompactBytes [1] = Inr (PBytes [], []) \<and>
   encode CompactBytes PNone = Some (Inr [0]) \<and>
   decode CompactBytes [0] = Inr (PNone, [])"
proof (intro conjI impI)
  assume a: "- 1 \<le> L \<and> L < 2 ^ 32 - 1"
  then have "0 \<le> L + 1" "L + 1 < 2 ^ 32" by simp_all
  then obtain bs where w: "write_unsigned_varint (L + 1) = Some (Inr bs)"
    and r: "\<And>rest. read_unsigned_varint (bs @ rest) = Inr (L + 1, rest)"
    using write_read_unsigned [of "L + 1"] by blast
  have "VarInt_len_decoder (bs @ rest) = Inr (L, rest)" for rest
    using r [of rest] by (simp add: VarInt_len_decoder_def)
  with w show "\<exists>bs. VarInt_len_encoder L = Some (Inr bs) \<and>
      write_unsigned_varint (L + 1) = Some (Inr bs) \<and>
      (\<forall>rest. VarInt_len_decoder (bs @ rest) = Inr (L, rest))"
    by (simp add: VarInt_len_encoder_def)
next
  show "encode CompactBytes (PBytes []) = Some (Inr [1])"
    by (simp add: CompactBytes_def Bytes_encode_def VarInt_len_encoder_def bind_def varint_eval)
next
  show "decode CompactBytes [1] = Inr (PBytes [], [])"
    by (simp add: CompactBytes_def Bytes_decode_def VarInt_len_decoder_def returning_def
        or_None_def varint_eval)
next
  show "encode CompactBytes PNone = Some (Inr [0])"
    by (simp add: CompactBytes_def Bytes_encode_def VarInt_len_encoder_def bind_def varint_eval)
next
  show "decode CompactBytes [0] = Inr (PNone, [])"
    by (simp add: CompactBytes_def Bytes_decode_def VarInt_len_decoder_def returning_def
        or_None_def varint_eval)
qed

theorem C4_compact_length_bias_witness:
  "(\<exists>bs. VarInt_len_encoder 299 = Some (Inr bs) \<and>
         (\<forall>rest. VarInt_len_decoder (bs @ rest) = Inr (299, rest))) \<and>
   VarInt_len_encoder 299 = Some (Inr [0xac, 0x02]) \<and>
   VarInt_len_decoder [0xac, 0x02] = Inr (299, [])"
proof -
  have "\<exists>bs. VarInt_len_encoder 299 = Some (Inr bs) \<and>
         (\<forall>rest. VarInt_len_decoder (bs @ rest) = Inr (299, rest))"
    using C4_compact_length_bias [of 299, THEN conjunct1] by simp blast
  moreover have "VarInt_len_encoder 299 = Some (Inr [0xac, 0x02])"
    by (simp add: VarInt_len_encoder_def varint_eval)
  moreover have "VarInt_len_decoder [0xac, 0x02] = Inr (299, [])"
    by (simp add: VarInt_len_decoder_def varint_eval)
  ultimately show ?thesis by blast
qed

section \<open>Claims on the signed varint\<close>

text \<open>
  Claim C6. \<^verbatim>\<open>write_varint\<close> is \<^verbatim>\<open>write_unsigned_varint\<close> after
  \<open>v \<mapsto> (v << 1) ^ (v >> 31)\<close>, \<^verbatim>\<open>read_varint\<close> is \<^verbatim>\<open>read_unsigned_varint\<close> followed
  by \<open>u \<mapsto> (u >> 1) ^ -(u & 1)\<close>; every 32-bit signed \<open>v\<close> is written to bytes from which
  \<^verbatim>\<open>read_varint\<close> returns \<open>v\<close>; \<open>- 1\<close> is written as the unsigned 1 and \<open>1\<close> as the
  unsigned 2.
\<close>

theorem C6_signed_varint_zigzag:
  "(- (2 ^ 31) \<le> v \<and> v < 2 ^ 31 \<longrightarrow>
      (\<exists>bs. write_varint v = Some (Inr bs) \<and>
            (\<forall>rest. read_varint (bs @ rest) = Inr (v, rest)))) \<and>
   write_varint v = write_unsigned_varint (push_bit 1 v XOR drop_bit 31 v) \<and>
   read_varint buf =
     (case read_unsigned_varint buf of
        Inl e \<Rightarrow> Inl e
      | Inr (u, buf') \<Rightarrow> Inr (drop_bit 1 u XOR - (u AND 1), buf')) \<and>
   write_varint (- 1) = write_unsigned_varint 1 \<and>
   write_varint 1 = write_unsigned_varint 2"
proof (intro conjI impI)
  assume a: "- (2 ^ 31) \<le> v \<and> v < 2 ^ 31"
  define u where "u = push_bit 1 v XOR drop_bit 31 v"
  have u: "0 \<le> u \<and> u < 2 ^ 32 \<and> drop_bit 1 u XOR - (u AND 1) = v"
  proof (cases "0 \<le> v")
    case True
    with a have "u = 2 * v" unfolding u_def by (intro zigzag_nonneg) simp_all
    with True a show ?thesis by (simp only: unzigzag_even) simp
  next
    case False
    with a have "u = - 2 * v - 1" unfolding u_def by (intro zigzag_neg) simp_all
    with False a show ?thesis by (simp only: unzigzag_odd) simp
  qed
  then obtain bs where w: "write_unsigned_varint u = Some (Inr bs)"
    and r: "\<And>rest. read_unsigned_varint (bs @ rest) = Inr (u, rest)"
    using write_read_unsigned [of u] by blast
  have "write_varint v = Some (Inr bs)" using w by (simp add: write_varint_def u_def)
  moreover have "read_varint (bs @ rest) = Inr (v, rest)" for rest
    using r [of rest] u by (simp add: read_varint_def)
  ultimately show "\<exists>bs. write_varint v = Some (Inr bs) \<and>
      (\<forall>rest. read_varint (bs @ rest) = Inr (v, rest))" by blast
next
  show "write_varint v = write_unsigned_varint (push_bit 1 v XOR drop_bit 31 v)"
    by (simp add: write_varint_def)
next
  show "read_varint buf =
     (case read_unsigned_varint buf of
        Inl e \<Rightarrow> Inl e
      | Inr (u, buf') \<Rightarrow> Inr (drop_bit 1 u XOR - (u AND 1), buf'))"
    by (simp add: read_varint_def)
next
  show "write_varint (- 1) = write_unsigned_varint 1"
    by (simp add: write_varint_def)
next
  show "write_varint 1 = write_unsigned_varint 2"
    by (simp add: write_varint_def)
qed

theorem C6_signed_varint_zigzag_witness:
  "(\<exists>bs. write_varint (- (2 ^ 31)) = Some (Inr bs) \<and>
         (\<forall>rest. read_varint (bs @ rest) = Inr (- (2 ^ 31), rest))) \<and>
   write_varint (- (2 ^ 31)) = Some (Inr [0xff, 0xff, 0xff, 0xff, 0x0f]) \<and>
   write_varint (2 ^ 31 - 1) = Some (Inr [0xfe, 0xff, 0xff, 0xff, 0x0f]) \<and>
   write_varint 0 = Some (Inr [0]) \<and>
   write_varint (- 1) = Some (Inr [1]) \<and>
   write_varint 1 = Some (Inr [2])"
proof -
  have "\<exists>bs. write_varint (- (2 ^ 31)) = Some (Inr bs) \<and>
         (\<forall>rest. read_varint (bs @ rest) = Inr (- (2 ^ 31), rest))"
    using C6_signed_varint_zigzag [of "- (2 ^ 31)", THEN conjunct1] by simp
  moreover have "write_varint (- (2 ^ 31)) = Some (Inr [0xff, 0xff, 0xff, 0xff, 0x0f])"
    "write_varint (2 ^ 31 - 1) = Some (Inr [0xfe, 0xff, 0xff, 0xff, 0x0f])"
    "write_varint 0 = Some (Inr [0])"
    "write_varint (- 1) = Some (Inr [1])"
    "write_varint 1 = Some (Inr [2])"
    by (simp_all add: write_varint_def varint_eval)
  ultimately show ?thesis by blast
qed

section \<open>Claims on TaggedField\<close>

text \<open>
  Claim C1. The claim has \<^verbatim>\<open>TaggedField.decode\<close> read as many bytes as the decoded
  length says, and return an empty value for the length 0. The code subtracts one from
  the length \<^verbatim>\<open>len_decoder\<close> has already reduced by one: on tag 5, stored length 3
  (logical length 2) and the bytes \<open>ab\<close> it returns \<open>a\<close> and leaves \<open>b\<close> unread; the stored
  length 1 (logical length 0) gives \<^verbatim>\<open>None\<close>, and it is the stored length 2 that gives
  the empty value.
\<close>

theorem C1_TaggedField_decode_off_by_one:
  "TaggedField_decode [0x05, 0x03, 0x61, 0x62] = Inr ((5, Some [0x61]), [0x62]) \<and>
   TaggedField_decode [0x05, 0x01] = Inr ((5, None), []) \<and>
   TaggedField_decode [0x05, 0x02, 0x61] = Inr ((5, Some []), [0x61])"
  by (simp add: TaggedField_decode_def VarInt_len_decoder_def varint_eval)

text \<open>
  Claim C2. The claim has \<^verbatim>\<open>TaggedField.encode\<close> succeed on \<^verbatim>\<open>(tag, None)\<close>. The code
  computes the length \<open>- 1\<close> for it and then adds \<^verbatim>\<open>None\<close> to the bytes: a
  \<^verbatim>\<open>TypeError\<close>. A value that is not \<^verbatim>\<open>None\<close> is written as the claim says.
\<close>

theorem C2_TaggedField_encode_null:
  "TaggedField_encode (5, None) = Some (Inl TypeError) \<and>
   TaggedField_encode (5, Some [0x61, 0x62]) = Some (Inr [0x05, 0x03, 0x61, 0x62])"
  by (simp add: TaggedField_encode_def VarInt_len_encoder_def bind_def varint_eval)

section \<open>Claims on Bytes, String and Array\<close>

text \<open>
  \<^verbatim>\<open>String.decode\<close> ends in \<^verbatim>\<open>value.decode(self.encoding)\<close>, which raises on bytes
  the text encoding does not cover. The prefix \<open>00 02\<close> announces two bytes and exactly
  two follow, \<open>c0 80\<close>, which are not UTF-8: the decoder raises a \<^verbatim>\<open>UnicodeError\<close> and
  returns no string.
\<close>

theorem C8_String_decode_counterexample:
  "String_len_decoder [0x00, 0x02, 0xc0, 0x80] = Inr (2, [0xc0, 0x80]) \<and>
   String_decode String_len_decoder utf8 [0x00, 0x02, 0xc0, 0x80] = Inl UnicodeError \<and>
   decode (String utf8) [0x00, 0x02, 0xc0, 0x80] = Inl UnicodeError"
  by (simp add: String_def String_decode_def String_len_decoder_def returning_def utf8_def
      int_eval)

text \<open>
  Claim C8, amended. When the length prefix of \<^verbatim>\<open>Bytes.decode\<close> or \<^verbatim>\<open>String.decode\<close>
  decodes to a non-negative \<open>L\<close> and fewer than \<open>L\<close> bytes are left, the decoder raises
  the \<^verbatim>\<open>ValueError\<close> of a buffer underrun and returns nothing. Otherwise
  \<^verbatim>\<open>Bytes.decode\<close> returns the next \<open>L\<close> bytes and the cursor moves behind them;
  \<^verbatim>\<open>String.decode\<close> hands the next \<open>L\<close> bytes to the text encoding and returns the
  string it decodes them to, with the cursor behind them, or raises the error of the
  text encoding when it does not accept them.
\<close>

theorem C8_buffer_underrun:
  "(Bytes_len_decoder buf = Inr (L, rest) \<and> 0 \<le> L \<longrightarrow>
      Bytes_decode Bytes_len_decoder buf =
        (if len rest < L then Inl (ValueError ''Buffer underrun decoding Bytes'')
         else Inr (Some (take (nat L) rest), drop (nat L) rest))) \<and>
   (String_len_decoder buf = Inr (L, rest) \<and> 0 \<le> L \<longrightarrow>
      String_decode String_len_decoder enc buf =
        (if len rest < L then Inl (ValueError ''Buffer underrun decoding string'')
         else (case bytes_decode enc (take (nat L) rest) of
                 Inl e \<Rightarrow> Inl e
               | Inr s \<Rightarrow> Inr (Some s, drop (nat L) rest))))"
  by (auto simp add: Bytes_decode_def String_decode_def read_def len_def min_def)

theorem C8_buffer_underrun_witness:
  "decode Bytes [0, 0, 0, 3, 0x61, 0x62] = Inl (ValueError ''Buffer underrun decoding Bytes'') \<and>
   decode Bytes [0, 0, 0, 2, 0x61, 0x62] = Inr (PBytes [0x61, 0x62], []) \<and>
   decode (String utf8) [0, 3, 0x61, 0x62] = Inl (ValueError ''Buffer underrun decoding string'') \<and>
   decode (String utf8) [0, 2, 0x61, 0x62] = Inr (PStr [97, 98], [])"
proof -
  have b3: "Bytes_len_decoder [0, 0, 0, 3, 0x61, 0x62] = Inr (3, [0x61, 0x62]) \<and> (0::int) \<le> 3"
    and b2: "Bytes_len_decoder [0, 0, 0, 2, 0x61, 0x62] = Inr (2, [0x61, 0x62]) \<and> (0::int) \<le> 2"
    and s3: "String_len_decoder [0, 3, 0x61, 0x62] = Inr (3, [0x61, 0x62]) \<and> (0::int) \<le> 3"
    and s2: "String_len_decoder [0, 2, 0x61, 0x62] = Inr (2, [0x61, 0x62]) \<and> (0::int) \<le> 2"
    by (simp_all add: Bytes_len_decoder_def String_len_decoder_def int_eval)
  note t = C8_buffer_underrun [THEN conjunct1, rule_format] C8_buffer_underrun [THEN conjunct2, rule_format]
  show ?thesis
    using t(1) [OF b3] t(1) [OF b2] t(2) [OF s3, of utf8] t(2) [OF s2, of utf8]
    by (simp add: Bytes_def String_def returning_def or_None_def len_def utf8_def
        is_cont_def cont_bits_def cons_cp_def)
qed

text \<open>
  Claim C9. When the \<^verbatim>\<open>Int32\<close> length prefix of an \<^verbatim>\<open>Array\<close> decodes to a number below
  \<open>- 1\<close>, \<^verbatim>\<open>Array.decode\<close> returns the empty list, not \<^verbatim>\<open>None\<close> and not an error, and
  reads no element.
\<close>

theorem C9_Array_decode_negative_length:
  "Array_len_decoder buf = Inr (n, rest) \<and> n < - 1 \<longrightarrow>
     Array_decode Array_len_decoder array_of buf = Inr (Some [], rest) \<and>
     decode (Array array_of) buf = Inr (PList [], rest)"
  by (simp add: Array_def Array_decode_def returning_def or_None_def)

theorem C9_Array_decode_negative_length_witness:
  "Array_len_decoder [0xff, 0xff, 0xff, 0xfe, 0x07] = Inr (- 2, [0x07]) \<and>
   decode (Array Int32) [0xff, 0xff, 0xff, 0xfe, 0x07] = Inr (PList [], [0x07])"
proof -
  have d: "Array_len_decoder [0xff, 0xff, 0xff, 0xfe, 0x07] = Inr (- 2, [0x07])"
    by (simp add: Array_len_decoder_def int_eval)
  with C9_Array_decode_negative_length [of "[0xff, 0xff, 0xff, 0xfe, 0x07]" "- 2" "[0x07]" Int32]
  show ?thesis by simp
qed

text \<open>
  The length prefix of a \<^verbatim>\<open>String\<close> is an \<^verbatim>\<open>Int16\<close>: a string of 32768 letters \<open>a\<close>
  has no encoding, \<^verbatim>\<open>String.encode\<close> raises the \<^verbatim>\<open>ValueError\<close> of \<^verbatim>\<open>_pack\<close>, and so
  does \<^verbatim>\<open>Array.encode\<close> on a list that holds it.
\<close>

theorem C3_Array_of_Schema_counterexample:
  "encode (Array (Schema [(''id'', Int32), (''name'', String utf8)]))
     (PList [PTuple [PInt 1, PStr (replicate 32768 97)]])
   = Some (Inl (ValueError ''Error encountered when attempting to convert value''))"
proof -
  have "utf8_encode (replicate 32768 97) = Inr (replicate 32768 (of_nat 97))"
    by (rule utf8_encode_replicate) simp
  then have "String_encode String_len_encoder utf8 (PStr (replicate 32768 97))
      = Some (Inl (ValueError ''Error encountered when attempting to convert value''))"
    by (simp add: String_encode_def String_len_encoder_def utf8_def bind_def len_def
        Int16_encode_def pack_int_def)
  then show ?thesis
    by (simp add: Array_def Array_encode_def Array_len_encoder_def Schema_def Schema_encode_def
        Int32_def String_def bind_def len_def Int32_encode_def pack_int_def)
qed

text \<open>
  Claim C3, amended. Take the \<^verbatim>\<open>Array\<close> of the \<^verbatim>\<open>Schema\<close> of an \<^verbatim>\<open>Int32\<close> and a
  \<^verbatim>\<open>String\<close>, and a list of fewer than \<open>2\<^sup>3\<^sup>1\<close> pairs of a 32-bit signed integer and a
  string that the text encoding encodes in fewer than \<open>2\<^sup>1\<^sup>5\<close> bytes and decodes back
  from them. \<^verbatim>\<open>Array.encode\<close> returns bytes, and \<^verbatim>\<open>Array.decode\<close> on these bytes
  returns the same list of tuples and stops behind them. With UTF-8 it is enough that
  every string has an encoding of fewer than \<open>2\<^sup>1\<^sup>5\<close> bytes.
\<close>

theorem C3_Array_of_Schema_roundtrip:
  "(length items < 2 ^ 31 \<and>
    (\<forall>(n, s)\<in>set items. - (2 ^ 31) \<le> n \<and> n < 2 ^ 31 \<and>
       (\<exists>bs. str_encode enc s = Inr bs \<and> length bs < 2 ^ 15 \<and> bytes_decode enc bs = Inr s)) \<longrightarrow>
    (\<exists>out. encode (Array (Schema [(a, Int32), (b, String enc)]))
         (PList (map (\<lambda>(n, s). PTuple [PInt n, PStr s]) items)) = Some (Inr out) \<and>
       (\<forall>rest. decode (Array (Schema [(a, Int32), (b, String enc)])) (out @ rest)
          = Inr (PList (map (\<lambda>(n, s). PTuple [PInt n, PStr s]) items), rest)))) \<and>
   (length items < 2 ^ 31 \<and>
    (\<forall>(n, s)\<in>set items. - (2 ^ 31) \<le> n \<and> n < 2 ^ 31 \<and>
       (\<exists>bs. utf8_encode s = Inr bs \<and> length bs < 2 ^ 15)) \<longrightarrow>
    (\<exists>out. encode (Array (Schema [(a, Int32), (b, String utf8)]))
         (PList (map (\<lambda>(n, s). PTuple [PInt n, PStr s]) items)) = Some (Inr out) \<and>
       (\<forall>rest. decode (Array (Schema [(a, Int32), (b, String utf8)])) (out @ rest)
          = Inr (PList (map (\<lambda>(n, s). PTuple [PInt n, PStr s]) items), rest))))"
proof (intro conjI impI)
  assume "length items < 2 ^ 31 \<and>
    (\<forall>(n, s)\<in>set items. - (2 ^ 31) \<le> n \<and> n < 2 ^ 31 \<and>
       (\<exists>bs. str_encode enc s = Inr bs \<and> length bs < 2 ^ 15 \<and> bytes_decode enc bs = Inr s))"
  then show "\<exists>out. encode (Array (Schema [(a, Int32), (b, String enc)]))
         (PList (map (\<lambda>(n, s). PTuple [PInt n, PStr s]) items)) = Some (Inr out) \<and>
       (\<forall>rest. decode (Array (Schema [(a, Int32), (b, String enc)])) (out @ rest)
          = Inr (PList (map (\<lambda>(n, s). PTuple [PInt n, PStr s]) items), rest))"
    by (intro Array_Schema_roundtrip) simp_all
next
  assume h: "length items < 2 ^ 31 \<and>
    (\<forall>(n, s)\<in>set items. - (2 ^ 31) \<le> n \<and> n < 2 ^ 31 \<and>
       (\<exists>bs. utf8_encode s = Inr bs \<and> length bs < 2 ^ 15))"
  then have "\<forall>(n, s)\<in>set items. - (2 ^ 31) \<le> n \<and> n < 2 ^ 31 \<and>
       (\<exists>bs. str_encode utf8 s = Inr bs \<and> length bs < 2 ^ 15 \<and> bytes_decode utf8 bs = Inr s)"
    by (fastforce simp add: utf8_def dest: utf8_roundtrip)
  with h show "\<exists>out. encode (Array (Schema [(a, Int32), (b, String utf8)]))
         (PList (map (\<lambda>(n, s). PTuple [PInt n, PStr s]) items)) = Some (Inr out) \<and>
       (\<forall>rest. decode (Array (Schema [(a, Int32), (b, String utf8)])) (out @ rest)
          = Inr (PList (map (\<lambda>(n, s). PTuple [PInt n, PStr s]) items), rest))"
    by (intro Array_Schema_roundtrip) simp_all
qed

theorem C3_Array_of_Schema_roundtrip_witness:
  "encode (Array (Schema [(''id'', Int32), (''name'', String utf8)]))
     (PList [PTuple [PInt 1, PStr [97]], PTuple [PInt 2, PStr [98, 98]]])
     = Some (Inr [0, 0, 0, 2, 0, 0, 0, 1, 0, 1, 97, 0, 0, 0, 2, 0, 2, 98, 98]) \<and>
   decode (Array (Schema [(''id'', Int32), (''name'', String utf8)]))
     [0, 0, 0, 2, 0, 0, 0, 1, 0, 1, 97, 0, 0, 0, 2, 0, 2, 98, 98]
     = Inr (PList [PTuple [PInt 1, PStr [97]], PTuple [PInt 2, PStr [98, 98]]], [])"
proof -
  have h: "length [(1::int, [97::nat]), (2, [98, 98])] < 2 ^ 31 \<and>
    (\<forall>(n, s)\<in>set [(1::int, [97::nat]), (2, [98, 98])]. - (2 ^ 31) \<le> n \<and> n < 2 ^ 31 \<and>
       (\<exists>bs. utf8_encode s = Inr bs \<and> length bs < 2 ^ 15))"
    by (simp add: utf8_encode_cp_def)
  have e: "encode (Array (Schema [(''id'', Int32), (''name'', String utf8)]))
     (PList [PTuple [PInt 1, PStr [97]], PTuple [PInt 2, PStr [98, 98]]])
     = Some (Inr [0, 0, 0, 2, 0, 0, 0, 1, 0, 1, 97, 0, 0, 0, 2, 0, 2, 98, 98])"
    by (simp add: codec_eval)
  from C3_Array_of_Schema_roundtrip [of "[(1, [97]), (2, [98, 98])]" utf8 "''id''" "''name''",
      THEN conjunct2, rule_format, OF h]
  obtain out where o: "encode (Array (Schema [(''id'', Int32), (''name'', String utf8)]))
         (PList (map (\<lambda>(n, s). PTuple [PInt n, PStr s]) [(1, [97]), (2, [98, 98])])) = Some (Inr out)"
    and d: "\<And>rest. decode (Array (Schema [(''id'', Int32), (''name'', String utf8)])) (out @ rest)
          = Inr (PList (map (\<lambda>(n, s). PTuple [PInt n, PStr s]) [(1, [97]), (2, [98, 98])]), rest)"
    by blast
  from o e have "out = [0, 0, 0, 2, 0, 0, 0, 1, 0, 1, 97, 0, 0, 0, 2, 0, 2, 98, 98]" by simp
  with d [of "[]"] e show ?thesis by simp
qed

end
